theory Spec2Isabelle
  imports Main "HOL-Library.Sublist"
begin

section \<open>Data model (src/src/types.ts)\<close>

text \<open>
  TypeScript's types are erased when the program runs: a \<^verbatim>\<open>TaskStatus\<close> is a
  string, and the union \<^verbatim>\<open>'todo' | 'in-progress' | 'complete'\<close> is the set of the
  three strings it lists. The model keeps the run-time representation, so that a status
  outside the set is a value the invariants have to exclude.

  Strings are lists of 8-bit characters, read as code units below 256.
\<close>

type_synonym TaskStatus = string

definition TaskStatus_values :: "TaskStatus set" where
  "TaskStatus_values = {''todo'', ''in-progress'', ''complete''}"

text \<open>
  \<^verbatim>\<open>interface Task { id; title; description?; status; createdAt }\<close>. The optional
  description is \<open>None\<close> when the property is undefined. \<^verbatim>\<open>createdAt\<close> holds
  the integer \<^verbatim>\<open>Date.now()\<close> returned. The fields of the records carry a prefix
  (\<open>t_\<close>, \<open>q_\<close>, \<open>c_\<close>), since \<^verbatim>\<open>id\<close> is a field of all three and a constant of
  HOL; the cell \<^verbatim>\<open>notes\<close> of the state is \<open>notes_text\<close>, \<open>notes\<close> being a reserved
  word.
\<close>

record Task =
  t_id :: string
  t_title :: string
  t_description :: "string option"
  t_status :: TaskStatus
  t_createdAt :: int

text \<open>\<^verbatim>\<open>interface QuickTodo { id; text; done }\<close>\<close>

record QuickTodo =
  q_id :: string
  q_text :: string
  q_done :: bool

section \<open>Constants and helpers (src/src/App.tsx)\<close>

record Column =
  c_id :: TaskStatus
  c_label :: string

definition COLUMNS :: "Column list" where
  "COLUMNS =
    [\<lparr>c_id = ''todo'', c_label = ''To Do''\<rparr>,
     \<lparr>c_id = ''in-progress'', c_label = ''In Progress''\<rparr>,
     \<lparr>c_id = ''complete'', c_label = ''Complete''\<rparr>]"

text \<open>
  \<^verbatim>\<open>String.prototype.slice(start, end)\<close> for \<open>0 \<le> start \<le> end\<close>: both
  indices are clamped to the length, which \<open>take\<close> and \<open>drop\<close> do.
\<close>

definition slice :: "nat \<Rightarrow> nat \<Rightarrow> string \<Rightarrow> string" where
  "slice start fin s = take (fin - start) (drop start s)"

text \<open>
  \<^verbatim>\<open>generateId() = Math.random().toString(36).slice(2, 11)\<close>. The random draw comes
  from the environment: the model takes the text \<^verbatim>\<open>Math.random().toString(36)\<close>
  (such as \<^verbatim>\<open>0.k2j5h1x9qpa\<close>) as its argument, and computes the slice.
\<close>

definition generateId :: "string \<Rightarrow> string" where
  "generateId random36 = slice 2 11 random36"

text \<open>
  \<^verbatim>\<open>String.prototype.trim()\<close> removes the white space and the line terminators of
  ECMAScript at both ends; below code unit 256 they are TAB, LF, VT, FF, CR, SP and
  NBSP.
\<close>

definition isWhiteSpace :: "char \<Rightarrow> bool" where
  "isWhiteSpace c \<longleftrightarrow> (of_char c :: nat) \<in> {9, 10, 11, 12, 13, 32, 160}"

definition trim :: "string \<Rightarrow> string" where
  "trim s = rev (dropWhile isWhiteSpace (rev (dropWhile isWhiteSpace s)))"

section \<open>The state of the App component\<close>

text \<open>
  The \<^verbatim>\<open>useState\<close> cells of \<^verbatim>\<open>App\<close>. A handler runs on the state of the
  render it was created in and, the interface being single-threaded, the updater it
  passes to \<^verbatim>\<open>setTasks\<close> is applied to that same state: \<^verbatim>\<open>prev\<close> is
  \<^verbatim>\<open>tasks\<close>.
\<close>

record AppState =
  tasks :: "Task list"
  todos :: "QuickTodo list"
  notes_text :: string
  activeTask :: "Task option"
  newTodo :: string
  showTaskModal :: bool
  newTaskStatus :: TaskStatus
  newTaskTitle :: string
  newTaskDesc :: string

text \<open>
  \<^verbatim>\<open>UniqueIdentifier = string | number\<close> of the drag-and-drop library; a strict
  comparison \<^verbatim>\<open>===\<close> of a task's or a column's id with a number is false.
\<close>

datatype UniqueIdentifier = IdString string | IdNumber int

text \<open>A drag event: \<^verbatim>\<open>active.id\<close>, and \<^verbatim>\<open>over.id\<close> when \<^verbatim>\<open>over\<close> is not null.\<close>

record DragEndEvent =
  active_id :: UniqueIdentifier
  over_id :: "UniqueIdentifier option"

text \<open>
  \<^verbatim>\<open>tasks.find((t) => t.id === i)\<close>: the first task of the array with that
  id, if there is one.
\<close>

definition find_task :: "UniqueIdentifier \<Rightarrow> Task list \<Rightarrow> Task option" where
  "find_task i ts = find (\<lambda>t. IdString (t_id t) = i) ts"

definition handleDragStart :: "AppState \<Rightarrow> UniqueIdentifier \<Rightarrow> AppState" where
  "handleDragStart st active =
    (case find_task active (tasks st) of
       Some task \<Rightarrow> st\<lparr>activeTask := Some task\<rparr>
     | None \<Rightarrow> st)"

text \<open>
  The updater both branches of \<^verbatim>\<open>handleDragEnd\<close> pass to \<^verbatim>\<open>setTasks\<close>:
  \<^verbatim>\<open>prev.map((t) => (t.id === active.id ? { ...t, status: s } : t))\<close>.
\<close>

definition set_status :: "UniqueIdentifier \<Rightarrow> TaskStatus \<Rightarrow> Task list \<Rightarrow> Task list" where
  "set_status active s prev =
     map (\<lambda>t. if IdString (t_id t) = active then t\<lparr>t_status := s\<rparr> else t) prev"

definition handleDragEnd :: "AppState \<Rightarrow> DragEndEvent \<Rightarrow> AppState" where
  "handleDragEnd st event =
    (let st1 = st\<lparr>activeTask := None\<rparr> in
     case over_id event of
       None \<Rightarrow> st1
     | Some over \<Rightarrow>
        (case find_task (active_id event) (tasks st) of
           None \<Rightarrow> st1
         | Some dragged \<Rightarrow>
            (case find (\<lambda>c. IdString (c_id c) = over) COLUMNS of
               Some targetColumn \<Rightarrow>
                 st1\<lparr>tasks := set_status (active_id event) (c_id targetColumn) (tasks st)\<rparr>
             | None \<Rightarrow>
                (case find_task over (tasks st) of
                   Some overTask \<Rightarrow>
                     if t_status dragged \<noteq> t_status overTask
                     then st1\<lparr>tasks := set_status (active_id event) (t_status overTask) (tasks st)\<rparr>
                     else st1
                 | None \<Rightarrow> st1))))"

definition openAddTask :: "AppState \<Rightarrow> TaskStatus \<Rightarrow> AppState" where
  "openAddTask st status =
     st\<lparr>newTaskStatus := status, newTaskTitle := '''', newTaskDesc := '''',
        showTaskModal := True\<rparr>"

text \<open>
  \<^verbatim>\<open>addTask\<close> reads two values of the environment: the random text of
  \<^verbatim>\<open>generateId\<close> and the clock \<^verbatim>\<open>Date.now()\<close>. The empty string is the only
  falsy string, so \<^verbatim>\<open>!s.trim()\<close> tests for it and \<^verbatim>\<open>s.trim() || undefined\<close>
  replaces it.
\<close>

definition addTask_task :: "AppState \<Rightarrow> string \<Rightarrow> int \<Rightarrow> Task" where
  "addTask_task st random36 now =
     \<lparr>t_id = generateId random36,
      t_title = trim (newTaskTitle st),
      t_description =
        (if trim (newTaskDesc st) = '''' then None else Some (trim (newTaskDesc st))),
      t_status = newTaskStatus st,
      t_createdAt = now\<rparr>"

definition addTask :: "AppState \<Rightarrow> string \<Rightarrow> int \<Rightarrow> AppState" where
  "addTask st random36 now =
    (if trim (newTaskTitle st) = '''' then st
     else
       let task = addTask_task st random36 now
       in st\<lparr>tasks := tasks st @ [task], showTaskModal := False\<rparr>)"

definition deleteTask :: "AppState \<Rightarrow> string \<Rightarrow> AppState" where
  "deleteTask st i = st\<lparr>tasks := filter (\<lambda>t. t_id t \<noteq> i) (tasks st)\<rparr>"

definition addTodo :: "AppState \<Rightarrow> string \<Rightarrow> AppState" where
  "addTodo st random36 =
    (if trim (newTodo st) = '''' then st
     else st\<lparr>todos := todos st @
                 [\<lparr>q_id = generateId random36, q_text = trim (newTodo st), q_done = False\<rparr>],
             newTodo := ''''\<rparr>)"

definition toggleTodo :: "AppState \<Rightarrow> string \<Rightarrow> AppState" where
  "toggleTodo st i =
     st\<lparr>todos := map (\<lambda>t. if q_id t = i then t\<lparr>q_done := \<not> q_done t\<rparr> else t) (todos st)\<rparr>"

definition deleteTodo :: "AppState \<Rightarrow> string \<Rightarrow> AppState" where
  "deleteTodo st i = st\<lparr>todos := filter (\<lambda>t. q_id t \<noteq> i) (todos st)\<rparr>"

section \<open>JSON.parse and JSON.stringify\<close>

text \<open>
  The two functions of the platform that the persistence code calls, after ECMA-404 and
  the ECMAScript definitions of \<^verbatim>\<open>JSON.parse\<close> and \<^verbatim>\<open>JSON.stringify\<close>. A value
  is null, a boolean, a number, a string, an array or an object; an object is the list of
  its members in the order of the text. Numbers are the integers and strings have code
  units below 256, as in the rest of the model: where a text denotes a number that is
  not an integer, or a code unit above 255, the parser answers \<open>Unmodelled\<close> instead
  of a value; a number is kept exactly, where JavaScript rounds it to a double (no
  difference up to \<open>2^53\<close>). \<open>SyntaxError\<close> is the exception of \<^verbatim>\<open>JSON.parse\<close>.

  The parser is a recursive descent with a fuel argument that makes the recursion
  structural; \<open>JSON_parse\<close> starts it with more fuel than it can use (theorem
  \<open>JSON_parse_fuel\<close> below), so \<open>OutOfFuel\<close> is never its answer.
\<close>

datatype error = SyntaxError | Unmodelled | OutOfFuel

datatype json =
    JNull
  | JBool bool
  | JNumber int
  | JString string
  | JArray "json list"
  | JObject "(string \<times> json) list"

definition is_ws :: "char \<Rightarrow> bool" where
  "is_ws c \<longleftrightarrow> (of_char c :: nat) \<in> {32, 9, 10, 13}"

definition skip_ws :: "string \<Rightarrow> string" where
  "skip_ws s = dropWhile is_ws s"

definition is_digit :: "char \<Rightarrow> bool" where
  "is_digit c \<longleftrightarrow> 48 \<le> (of_char c :: nat) \<and> (of_char c :: nat) \<le> 57"

definition nat_of_digits :: "string \<Rightarrow> nat" where
  "nat_of_digits ds = foldl (\<lambda>a c. 10 * a + (of_char c - 48)) 0 ds"

definition decimal :: "bool \<Rightarrow> nat \<Rightarrow> int \<Rightarrow> int option" where
  "decimal neg m e =
     (let sg = (if neg then - 1 else 1) in
      if 0 \<le> e then Some (sg * int m * 10 ^ nat e)
      else if m mod 10 ^ nat (- e) = 0 then Some (sg * int (m div 10 ^ nat (- e)))
      else None)"

definition number_sign :: "string \<Rightarrow> bool \<times> string" where
  "number_sign s =
     (case s of [] \<Rightarrow> (False, s) | c # cs \<Rightarrow> if c = CHR ''-'' then (True, cs) else (False, s))"

definition number_int :: "string \<Rightarrow> (string \<times> string) option" where
  "number_int s =
     (let ip = takeWhile is_digit s in
      if ip = [] \<or> (hd ip = CHR ''0'' \<and> 1 < length ip) then None
      else Some (ip, dropWhile is_digit s))"

definition number_frac :: "string \<Rightarrow> (string \<times> string) option" where
  "number_frac s =
     (case s of
        [] \<Rightarrow> Some ([], s)
      | c # cs \<Rightarrow>
         if c = CHR ''.'' then
           (if takeWhile is_digit cs = [] then None
            else Some (takeWhile is_digit cs, dropWhile is_digit cs))
         else Some ([], s))"

definition number_exp :: "string \<Rightarrow> (int \<times> string) option" where
  "number_exp s =
     (case s of
        [] \<Rightarrow> Some (0, s)
      | c # cs \<Rightarrow>
         if c = CHR ''e'' \<or> c = CHR ''E'' then
           (let (eneg, ds) =
                  (case cs of
                     [] \<Rightarrow> (False, cs)
                   | g # r \<Rightarrow> if g = CHR ''-'' then (True, r)
                             else if g = CHR ''+'' then (False, r) else (False, cs))
            in if takeWhile is_digit ds = [] then None
               else Some ((if eneg then - int (nat_of_digits (takeWhile is_digit ds))
                           else int (nat_of_digits (takeWhile is_digit ds))),
                          dropWhile is_digit ds))
         else Some (0, s))"

definition parse_number :: "string \<Rightarrow> error + int \<times> string" where
  "parse_number s =
    (case number_sign s of
       (neg, s1) \<Rightarrow>
        (case number_int s1 of
           None \<Rightarrow> Inl SyntaxError
         | Some (ip, s2) \<Rightarrow>
            (case number_frac s2 of
               None \<Rightarrow> Inl SyntaxError
             | Some (fp, s3) \<Rightarrow>
                (case number_exp s3 of
                   None \<Rightarrow> Inl SyntaxError
                 | Some (ex, s4) \<Rightarrow>
                    (case decimal neg (nat_of_digits (ip @ fp)) (ex - int (length fp)) of
                       None \<Rightarrow> Inl Unmodelled
                     | Some i \<Rightarrow> Inr (i, s4))))))"

definition hex_val :: "char \<Rightarrow> nat option" where
  "hex_val c =
     (let n = of_char c :: nat in
      if 48 \<le> n \<and> n \<le> 57 then Some (n - 48)
      else if 97 \<le> n \<and> n \<le> 102 then Some (n - 87)
      else if 65 \<le> n \<and> n \<le> 70 then Some (n - 55)
      else None)"

definition hex4 :: "string \<Rightarrow> nat option" where
  "hex4 s =
     (case map hex_val (take 4 s) of
        [Some a, Some b, Some c, Some d] \<Rightarrow> Some (((a * 16 + b) * 16 + c) * 16 + d)
      | _ \<Rightarrow> None)"

definition unescape :: "char \<Rightarrow> char option" where
  "unescape e =
     (if e = CHR 0x22 then Some (CHR 0x22)
      else if e = CHR 0x5C then Some (CHR 0x5C)
      else if e = CHR ''/'' then Some (CHR ''/'')
      else if e = CHR ''b'' then Some (CHR 0x08)
      else if e = CHR ''f'' then Some (CHR 0x0C)
      else if e = CHR ''n'' then Some (CHR 0x0A)
      else if e = CHR ''r'' then Some (CHR 0x0D)
      else if e = CHR ''t'' then Some (CHR 0x09)
      else None)"

definition prepend :: "'a \<Rightarrow> error + 'a list \<times> string \<Rightarrow> error + 'a list \<times> string" where
  "prepend x res = (case res of Inl e \<Rightarrow> Inl e | Inr (xs, r) \<Rightarrow> Inr (x # xs, r))"

definition wrap :: "('a \<Rightarrow> json) \<Rightarrow> error + 'a \<times> string \<Rightarrow> error + json \<times> string" where
  "wrap f res = (case res of Inl e \<Rightarrow> Inl e | Inr (x, r) \<Rightarrow> Inr (f x, r))"

fun string_body :: "string \<Rightarrow> error + string \<times> string" where
  "string_body [] = Inl SyntaxError"
| "string_body (c # cs) =
     (if c = CHR 0x22 then Inr ([], cs)
      else if c = CHR 0x5C then
        (case cs of
           [] \<Rightarrow> Inl SyntaxError
         | e # r \<Rightarrow>
            if e = CHR ''u'' then
              (case hex4 r of
                 None \<Rightarrow> Inl SyntaxError
               | Some n \<Rightarrow> if n < 256 then prepend (char_of n) (string_body (drop 4 r))
                           else Inl Unmodelled)
            else
              (case unescape e of
                 None \<Rightarrow> Inl SyntaxError
               | Some x \<Rightarrow> prepend x (string_body r)))
      else if (of_char c :: nat) < 32 then Inl SyntaxError
      else prepend c (string_body cs))"

fun parse_value :: "nat \<Rightarrow> string \<Rightarrow> error + json \<times> string"
  and parse_elements :: "nat \<Rightarrow> string \<Rightarrow> error + json list \<times> string"
  and parse_members :: "nat \<Rightarrow> string \<Rightarrow> error + (string \<times> json) list \<times> string" where
  "parse_value 0 s = Inl OutOfFuel"
| "parse_value (Suc n) s =
    (case skip_ws s of
       [] \<Rightarrow> Inl SyntaxError
     | c # cs \<Rightarrow>
        if c = CHR ''['' then
          (case skip_ws cs of
             [] \<Rightarrow> Inl SyntaxError
           | d # ds \<Rightarrow>
              if d = CHR '']'' then Inr (JArray [], ds)
              else wrap JArray (parse_elements n cs))
        else if c = CHR ''{'' then
          (case skip_ws cs of
             [] \<Rightarrow> Inl SyntaxError
           | d # ds \<Rightarrow>
              if d = CHR ''}'' then Inr (JObject [], ds)
              else wrap JObject (parse_members n cs))
        else if c = CHR 0x22 then wrap JString (string_body cs)
        else if c = CHR ''-'' \<or> is_digit c then wrap JNumber (parse_number (c # cs))
        else if take 4 (c # cs) = ''true'' then Inr (JBool True, drop 4 (c # cs))
        else if take 5 (c # cs) = ''false'' then Inr (JBool False, drop 5 (c # cs))
        else if take 4 (c # cs) = ''null'' then Inr (JNull, drop 4 (c # cs))
        else Inl SyntaxError)"
| "parse_elements 0 s = Inl OutOfFuel"
| "parse_elements (Suc n) s =
    (case parse_value n s of
       Inl e \<Rightarrow> Inl e
     | Inr (v, r) \<Rightarrow>
        (case skip_ws r of
           [] \<Rightarrow> Inl SyntaxError
         | c # cs \<Rightarrow>
            if c = CHR '','' then prepend v (parse_elements n cs)
            else if c = CHR '']'' then Inr ([v], cs)
            else Inl SyntaxError))"
| "parse_members 0 s = Inl OutOfFuel"
| "parse_members (Suc n) s =
    (case skip_ws s of
       [] \<Rightarrow> Inl SyntaxError
     | q # s1 \<Rightarrow>
        if q \<noteq> CHR 0x22 then Inl SyntaxError
        else
          (case string_body s1 of
             Inl e \<Rightarrow> Inl e
           | Inr (k, s2) \<Rightarrow>
              (case skip_ws s2 of
                 [] \<Rightarrow> Inl SyntaxError
               | c # s3 \<Rightarrow>
                  if c \<noteq> CHR '':'' then Inl SyntaxError
                  else
                    (case parse_value n s3 of
                       Inl e \<Rightarrow> Inl e
                     | Inr (v, s4) \<Rightarrow>
                        (case skip_ws s4 of
                           [] \<Rightarrow> Inl SyntaxError
                         | d # s5 \<Rightarrow>
                            if d = CHR '','' then prepend (k, v) (parse_members n s5)
                            else if d = CHR ''}'' then Inr ([(k, v)], s5)
                            else Inl SyntaxError)))))"

definition JSON_parse :: "string \<Rightarrow> error + json" where
  "JSON_parse s =
     (case parse_value (Suc (2 * length s)) s of
        Inl e \<Rightarrow> Inl e
      | Inr (v, r) \<Rightarrow> if skip_ws r = [] then Inr v else Inl SyntaxError)"

definition hex_digit :: "nat \<Rightarrow> char" where
  "hex_digit n = char_of (if n < 10 then 48 + n else 87 + n)"

definition quote_char :: "char \<Rightarrow> string" where
  "quote_char c =
     (let n = of_char c :: nat in
      if n = 8 then [CHR 0x5C, CHR ''b'']
      else if n = 9 then [CHR 0x5C, CHR ''t'']
      else if n = 10 then [CHR 0x5C, CHR ''n'']
      else if n = 12 then [CHR 0x5C, CHR ''f'']
      else if n = 13 then [CHR 0x5C, CHR ''r'']
      else if n = 34 then [CHR 0x5C, CHR 0x22]
      else if n = 92 then [CHR 0x5C, CHR 0x5C]
      else if n < 32 then
        [CHR 0x5C, CHR ''u'', CHR ''0'', CHR ''0'', hex_digit (n div 16), hex_digit (n mod 16)]
      else [c])"

definition QuoteJSONString :: "string \<Rightarrow> string" where
  "QuoteJSONString s = CHR 0x22 # concat (map quote_char s) @ [CHR 0x22]"

fun digits :: "nat \<Rightarrow> string" where
  "digits n = (if n < 10 then [char_of (48 + n)] else digits (n div 10) @ [char_of (48 + n mod 10)])"

declare digits.simps [simp del]

definition show_int :: "int \<Rightarrow> string" where
  "show_int i = (if i < 0 then CHR ''-'' # digits (nat (- i)) else digits (nat i))"

fun commas :: "string list \<Rightarrow> string" where
  "commas [] = []"
| "commas [x] = x"
| "commas (x # y # ys) = x @ CHR '','' # commas (y # ys)"

fun JSON_stringify :: "json \<Rightarrow> string" where
  "JSON_stringify JNull = ''null''"
| "JSON_stringify (JBool b) = (if b then ''true'' else ''false'')"
| "JSON_stringify (JNumber i) = show_int i"
| "JSON_stringify (JString s) = QuoteJSONString s"
| "JSON_stringify (JArray xs) = CHR ''['' # commas (map JSON_stringify xs) @ '']''"
| "JSON_stringify (JObject ms) =
     CHR ''{'' # commas (map (\<lambda>m. QuoteJSONString (fst m) @ CHR '':'' # JSON_stringify (snd m)) ms)
       @ ''}''"

section \<open>Persistence (src/src/App.tsx, the initialisers and effects of App)\<close>

text \<open>
  How the values in memory look to \<^verbatim>\<open>JSON.stringify\<close>. A task is the object its
  literal in \<^verbatim>\<open>addTask\<close> builds, with the properties in the order of the literal
  (\<^verbatim>\<open>{ ...t, status }\<close> keeps that order); \<^verbatim>\<open>JSON.stringify\<close> leaves out a
  property whose value is undefined, so an absent description has no member.
\<close>

definition task_json :: "Task \<Rightarrow> json" where
  "task_json t = JObject
     ([(''id'', JString (t_id t)), (''title'', JString (t_title t))]
      @ (case t_description t of None \<Rightarrow> [] | Some d \<Rightarrow> [(''description'', JString d)])
      @ [(''status'', JString (t_status t)), (''createdAt'', JNumber (t_createdAt t))])"

definition todo_json :: "QuickTodo \<Rightarrow> json" where
  "todo_json q = JObject
     [(''id'', JString (q_id q)), (''text'', JString (q_text q)), (''done'', JBool (q_done q))]"

text \<open>
  Reading a property of a parsed object: the last member of that name, as JavaScript
  keeps the last of several.
\<close>

definition property :: "(string \<times> json) list \<Rightarrow> string \<Rightarrow> json option" where
  "property ms k = map_of (rev ms) k"

text \<open>
  The initialisers pass the parsed value on unchecked. \<open>as_task\<close> and \<open>as_todo\<close>
  say when a value is what the types \<^verbatim>\<open>Task\<close> and \<^verbatim>\<open>QuickTodo\<close> promise, and
  which record it is then.
\<close>

definition as_task :: "json \<Rightarrow> Task option" where
  "as_task v =
     (case v of
        JObject ms \<Rightarrow>
          (case (property ms ''id'', property ms ''title'', property ms ''status'',
                 property ms ''createdAt'') of
             (Some (JString i), Some (JString t), Some (JString s), Some (JNumber c)) \<Rightarrow>
               (case property ms ''description'' of
                  None \<Rightarrow>
                    Some \<lparr>t_id = i, t_title = t, t_description = None, t_status = s,
                          t_createdAt = c\<rparr>
                | Some (JString d) \<Rightarrow>
                    Some \<lparr>t_id = i, t_title = t, t_description = Some d, t_status = s,
                          t_createdAt = c\<rparr>
                | Some _ \<Rightarrow> None)
           | _ \<Rightarrow> None)
      | _ \<Rightarrow> None)"

definition as_todo :: "json \<Rightarrow> QuickTodo option" where
  "as_todo v =
     (case v of
        JObject ms \<Rightarrow>
          (case (property ms ''id'', property ms ''text'', property ms ''done'') of
             (Some (JString i), Some (JString t), Some (JBool d)) \<Rightarrow>
               Some \<lparr>q_id = i, q_text = t, q_done = d\<rparr>
           | _ \<Rightarrow> None)
      | _ \<Rightarrow> None)"

definition as_tasks :: "json \<Rightarrow> Task list option" where
  "as_tasks v = (case v of JArray xs \<Rightarrow> those (map as_task xs) | _ \<Rightarrow> None)"

definition as_todos :: "json \<Rightarrow> QuickTodo list option" where
  "as_todos v = (case v of JArray xs \<Rightarrow> those (map as_todo xs) | _ \<Rightarrow> None)"

text \<open>
  \<^verbatim>\<open>localStorage\<close>: \<^verbatim>\<open>getItem\<close> is the lookup (null when the key is absent),
  \<^verbatim>\<open>setItem\<close> the update. The storage is taken to have room for what is written.
\<close>

type_synonym Storage = "string \<rightharpoonup> string"

text \<open>
  The initialisers of the three \<^verbatim>\<open>useState\<close> cells:
  \<^verbatim>\<open>saved ? JSON.parse(saved) : []\<close> for the two collections, where null and the empty
  string are the falsy values of \<^verbatim>\<open>saved\<close>, and \<^verbatim>\<open>getItem('vibe-notes') || ''\<close>.
  An exception of \<^verbatim>\<open>JSON.parse\<close> is not caught.
\<close>

definition init_collection :: "string option \<Rightarrow> error + json" where
  "init_collection saved =
     (case saved of
        None \<Rightarrow> Inr (JArray [])
      | Some s \<Rightarrow> if s = '''' then Inr (JArray []) else JSON_parse s)"

definition init_notes :: "string option \<Rightarrow> string" where
  "init_notes saved = (case saved of None \<Rightarrow> '''' | Some s \<Rightarrow> if s = '''' then '''' else s)"

record Loaded =
  loaded_tasks :: json
  loaded_todos :: json
  loaded_notes :: string

definition App_init :: "Storage \<Rightarrow> error + Loaded" where
  "App_init sto =
     (case init_collection (sto ''vibe-tasks'') of
        Inl e \<Rightarrow> Inl e
      | Inr ts \<Rightarrow>
         (case init_collection (sto ''vibe-todos'') of
            Inl e \<Rightarrow> Inl e
          | Inr qs \<Rightarrow>
             Inr \<lparr>loaded_tasks = ts, loaded_todos = qs,
                  loaded_notes = init_notes (sto ''vibe-notes'')\<rparr>))"

text \<open>The three effects, run after a render: every cell is written under its key.\<close>

definition persist :: "AppState \<Rightarrow> Storage \<Rightarrow> Storage" where
  "persist st sto =
     sto(''vibe-tasks'' \<mapsto> JSON_stringify (JArray (map task_json (tasks st))),
         ''vibe-todos'' \<mapsto> JSON_stringify (JArray (map todo_json (todos st))),
         ''vibe-notes'' \<mapsto> notes_text st)"

section \<open>The interface as a transition system\<close>

text \<open>
  One constructor for each handler the JSX of \<^verbatim>\<open>App\<close> wires to the interface:
  the inputs' \<^verbatim>\<open>onChange\<close> setters, the buttons, and the two drag callbacks.
  \<^verbatim>\<open>AddTask\<close> and \<^verbatim>\<open>AddTodo\<close> carry what the environment supplies to the
  handler (the random text, the clock).
\<close>

datatype Event =
    SetNewTodo string
  | AddTodo string
  | ToggleTodo string
  | DeleteTodo string
  | SetNotes string
  | HandleDragStart UniqueIdentifier
  | HandleDragEnd DragEndEvent
  | OpenAddTask TaskStatus
  | DeleteTask string
  | CloseTaskModal
  | SetNewTaskTitle string
  | SetNewTaskDesc string
  | AddTask string int

fun step :: "AppState \<Rightarrow> Event \<Rightarrow> AppState" where
  "step st (SetNewTodo v) = st\<lparr>newTodo := v\<rparr>"
| "step st (AddTodo random36) = addTodo st random36"
| "step st (ToggleTodo i) = toggleTodo st i"
| "step st (DeleteTodo i) = deleteTodo st i"
| "step st (SetNotes v) = st\<lparr>notes_text := v\<rparr>"
| "step st (HandleDragStart active) = handleDragStart st active"
| "step st (HandleDragEnd event) = handleDragEnd st event"
| "step st (OpenAddTask status) = openAddTask st status"
| "step st (DeleteTask i) = deleteTask st i"
| "step st CloseTaskModal = st\<lparr>showTaskModal := False\<rparr>"
| "step st (SetNewTaskTitle v) = st\<lparr>newTaskTitle := v\<rparr>"
| "step st (SetNewTaskDesc v) = st\<lparr>newTaskDesc := v\<rparr>"
| "step st (AddTask random36 now) = addTask st random36 now"

fun run :: "AppState \<Rightarrow> Event list \<Rightarrow> AppState" where
  "run st [] = st"
| "run st (e # es) = run (step st e) es"

text \<open>
  The only call of \<^verbatim>\<open>openAddTask\<close> is \<^verbatim>\<open>onAddTask(column.id)\<close> in a
  \<^verbatim>\<open>Column\<close> rendered from \<^verbatim>\<open>COLUMNS.map\<close>: its argument is a column's id.
  The other handlers take what the user or the drag-and-drop library gives them.
\<close>

fun wired :: "Event \<Rightarrow> bool" where
  "wired (OpenAddTask status) = (status \<in> set (map c_id COLUMNS))"
| "wired _ = True"

text \<open>
  The state of the first render when the stored collections are \<open>ts\<close> and \<open>qs\<close> and
  the stored note is \<open>n\<close>; nothing stored gives the empty collections and the empty
  note.
\<close>

definition initial :: "Task list \<Rightarrow> QuickTodo list \<Rightarrow> string \<Rightarrow> AppState" where
  "initial ts qs n =
     \<lparr>tasks = ts, todos = qs, notes_text = n, activeTask = None, newTodo = '''',
      showTaskModal = False, newTaskStatus = ''todo'', newTaskTitle = '''',
      newTaskDesc = ''''\<rparr>"

text \<open>The state of the first render, when the loaded values are tasks and quick todos.\<close>

definition typed :: "Loaded \<Rightarrow> AppState option" where
  "typed l =
     (case (as_tasks (loaded_tasks l), as_todos (loaded_todos l)) of
        (Some ts, Some qs) \<Rightarrow> Some (initial ts qs (loaded_notes l))
      | _ \<Rightarrow> None)"

section \<open>Notions the properties are stated with\<close>

text \<open>What a task is apart from the column it stands in.\<close>

definition core :: "Task \<Rightarrow> string \<times> string \<times> string option \<times> int" where
  "core t = (t_id t, t_title t, t_description t, t_createdAt t)"

text \<open>The tasks that the \<^verbatim>\<open>addTask\<close> calls of a run create, in the order of the calls.\<close>

fun inserted :: "AppState \<Rightarrow> Event list \<Rightarrow> Task list" where
  "inserted st [] = []"
| "inserted st (AddTask random36 now # es) =
     (if trim (newTaskTitle st) = '''' then [] else [addTask_task st random36 now])
     @ inserted (step st (AddTask random36 now)) es"
| "inserted st (e # es) = inserted (step st e) es"

definition statuses_ok :: "Task list \<Rightarrow> bool" where
  "statuses_ok ts = list_all (\<lambda>t. t_status t \<in> TaskStatus_values) ts"

text \<open>What may follow a value inside a text: nothing, a comma or a closing bracket.\<close>

definition delimited :: "string \<Rightarrow> bool" where
  "delimited r \<longleftrightarrow> r = [] \<or> hd r = CHR '','' \<or> hd r = CHR '']'' \<or> hd r = CHR ''}''"

text \<open>Fuel that is enough to parse the text of a value.\<close>

fun need :: "json \<Rightarrow> nat" where
  "need (JArray xs) = Suc (length xs + sum_list (map need xs))"
| "need (JObject ms) = Suc (length ms + sum_list (map (\<lambda>m. need (snd m)) ms))"
| "need _ = 1"

definition member_text :: "string \<times> json \<Rightarrow> string" where
  "member_text m = QuoteJSONString (fst m) @ CHR '':'' # JSON_stringify (snd m)"

text \<open>The first character of a value's text starts a value.\<close>

definition starts_value :: "string \<Rightarrow> bool" where
  "starts_value s \<longleftrightarrow> s \<noteq> [] \<and> \<not> is_ws (hd s) \<and> hd s \<noteq> CHR '']'' \<and> hd s \<noteq> CHR ''}''"

text \<open>A small board on which the theorems are run, and drags of one card onto a target.\<close>

definition board :: AppState where
  "board = initial
     [\<lparr>t_id = ''a1'', t_title = ''write'', t_description = None, t_status = ''todo'',
        t_createdAt = 1000\<rparr>,
      \<lparr>t_id = ''b2'', t_title = ''review'', t_description = Some ''twice'',
        t_status = ''in-progress'', t_createdAt = 2000\<rparr>,
      \<lparr>t_id = ''c3'', t_title = ''plan'', t_description = None, t_status = ''todo'',
        t_createdAt = 3000\<rparr>]
     [\<lparr>q_id = ''q1'', q_text = ''milk'', q_done = False\<rparr>,
      \<lparr>q_id = ''q2'', q_text = ''post'', q_done = True\<rparr>]
     ''call back''"

definition drag :: "string \<Rightarrow> string \<Rightarrow> DragEndEvent" where
  "drag moved target = \<lparr>active_id = IdString moved, over_id = Some (IdString target)\<rparr>"

text \<open>A session at the interface: two tasks are added, one is dragged, one is deleted.\<close>

definition session :: "Event list" where
  "session = [OpenAddTask ''complete'', SetNewTaskTitle '' ship it'', AddTask ''0.k2j5h1x9qpa'' 5,
              HandleDragEnd (drag ''k2j5h1x9q'' ''in-progress''), OpenAddTask ''todo'',
              SetNewTaskTitle ''milk'', AddTask ''0.zz'' 7, DeleteTask ''zz'']"

text \<open>Two tasks are added, and the random source returns the same number both times.\<close>

definition twice :: "Event list" where
  "twice = [OpenAddTask ''todo'', SetNewTaskTitle ''write'', AddTask ''0.k2j5h1x9qpa'' 1000,
            OpenAddTask ''todo'', SetNewTaskTitle ''review'', AddTask ''0.k2j5h1x9qpa'' 2000]"

text \<open>The board those two calls leave: two tasks with one id.\<close>

definition dup :: AppState where
  "dup = run (initial [] [] '''') twice"


section \<open>Facts about the updater\<close>

lemma length_set_status: "length (set_status a s xs) = length xs"
  by (simp add: set_status_def)

lemma nth_set_status:
  "k < length xs \<Longrightarrow>
     set_status a s xs ! k =
       (if IdString (t_id (xs ! k)) = a then (xs ! k)\<lparr>t_status := s\<rparr> else xs ! k)"
  by (simp add: set_status_def)

lemma core_status_update: "core (t\<lparr>t_status := s\<rparr>) = core t"
  by (simp add: core_def)

lemma map_core_set_status: "map core (set_status a s xs) = map core xs"
  by (induction xs) (simp_all add: set_status_def core_status_update)

lemma map_t_id_set_status: "map t_id (set_status a s xs) = map t_id xs"
  by (induction xs) (simp_all add: set_status_def)



lemma set_status_member:
  assumes "t' \<in> set (set_status a s xs)"
  shows "\<exists>t \<in> set xs. t' = t\<lparr>t_status := t_status t'\<rparr>"
proof -
  from assms have "t' \<in> (\<lambda>t. if IdString (t_id t) = a then t\<lparr>t_status := s\<rparr> else t) ` set xs"
    by (simp add: set_status_def)
  then obtain u where u: "u \<in> set xs" "t' = (if IdString (t_id u) = a then u\<lparr>t_status := s\<rparr> else u)"
    by blast
  have "t' = u\<lparr>t_status := t_status t'\<rparr>"
  proof (cases "IdString (t_id u) = a")
    case True
    with u(2) show ?thesis by simp
  next
    case False
    with u(2) show ?thesis by simp
  qed
  with u(1) show ?thesis by blast
qed

section \<open>Facts about the columns\<close>



lemma find_COLUMNS_status:
  assumes "find (\<lambda>x. IdString (c_id x) = ov) COLUMNS = Some col"
  shows "c_id col \<in> TaskStatus_values"
proof -
  from assms have "col \<in> set COLUMNS"
    by (auto simp: find_Some_iff in_set_conv_nth)
  then show ?thesis
    by (auto simp: COLUMNS_def TaskStatus_values_def)
qed

section \<open>What a drag does to the tasks\<close>

lemma handleDragEnd_tasks_cases:
  "tasks (handleDragEnd st ev) = tasks st \<or>
   (\<exists>s. tasks (handleDragEnd st ev) = set_status (active_id ev) s (tasks st))"
  by (simp add: handleDragEnd_def Let_def split: option.splits) blast



section \<open>Dropping a card\<close>

text \<open>With pairwise distinct ids, the task found for an id is the only task with that id.\<close>

lemma find_task_distinct:
  "distinct (map t_id ts) \<Longrightarrow> t \<in> set ts \<Longrightarrow> find_task (IdString (t_id t)) ts = Some t"
proof (induction ts)
  case Nil
  then show ?case by simp
next
  case (Cons x xs)
  show ?case
  proof (cases "t = x")
    case True
    then show ?thesis by (simp add: find_task_def)
  next
    case False
    with Cons.prems have t: "t \<in> set xs" by simp
    then have "t_id t \<in> t_id ` set xs" by (rule imageI)
    with Cons.prems(1) have "t_id x \<noteq> t_id t" by auto
    moreover from Cons.IH Cons.prems(1) t have "find_task (IdString (t_id t)) xs = Some t" by simp
    ultimately show ?thesis by (simp add: find_task_def)
  qed
qed



section \<open>Drags that change nothing\<close>




section \<open>Quick todos\<close>



section \<open>Adding tasks and quick todos\<close>

lemma dropWhile_all_iff: "list_all P (dropWhile P xs) \<longleftrightarrow> list_all P xs"
  by (induction xs) simp_all

lemma trim_empty_iff: "trim s = [] \<longleftrightarrow> list_all isWhiteSpace s"
proof -
  have "trim s = [] \<longleftrightarrow> list_all isWhiteSpace (rev (dropWhile isWhiteSpace s))"
    by (simp add: trim_def dropWhile_eq_Nil_conv list_all_iff)
  also have "\<dots> \<longleftrightarrow> list_all isWhiteSpace (dropWhile isWhiteSpace s)"
    by (simp add: list_all_iff)
  also have "\<dots> \<longleftrightarrow> list_all isWhiteSpace s"
    by (rule dropWhile_all_iff)
  finally show ?thesis .
qed

text \<open>
  C6. With a title whose trimmed value is empty \<^verbatim>\<open>addTask\<close> changes nothing, and
  with an input whose trimmed value is empty \<^verbatim>\<open>addTodo\<close> changes nothing. Otherwise
  one element is appended, whose title (text) is the trimmed input; the task's
  description is absent when the trimmed description is empty, and is the trimmed
  description otherwise.
\<close>

theorem add_rejects_empty_stores_trimmed:
  "(trim (newTaskTitle st) = '''' \<longrightarrow> addTask st r now = st) \<and>
   (trim (newTodo st) = '''' \<longrightarrow> addTodo st r = st) \<and>
   (trim (newTaskTitle st) \<noteq> '''' \<longrightarrow>
      (\<exists>t. tasks (addTask st r now) = tasks st @ [t] \<and>
           t_title t = trim (newTaskTitle st) \<and>
           (trim (newTaskDesc st) = '''' \<longrightarrow> t_description t = None) \<and>
           (trim (newTaskDesc st) \<noteq> '''' \<longrightarrow> t_description t = Some (trim (newTaskDesc st))))) \<and>
   (trim (newTodo st) \<noteq> '''' \<longrightarrow>
      (\<exists>q. todos (addTodo st r) = todos st @ [q] \<and> q_text q = trim (newTodo st)))"
proof (intro conjI impI)
  assume "trim (newTaskTitle st) = ''''"
  then show "addTask st r now = st" by (simp add: addTask_def)
next
  assume "trim (newTodo st) = ''''"
  then show "addTodo st r = st" by (simp add: addTodo_def)
next
  assume "trim (newTaskTitle st) \<noteq> ''''"
  then have "tasks (addTask st r now) = tasks st @ [addTask_task st r now]"
    by (simp add: addTask_def)
  moreover have "t_title (addTask_task st r now) = trim (newTaskTitle st)"
    by (simp add: addTask_task_def)
  moreover have "trim (newTaskDesc st) = '''' \<longrightarrow> t_description (addTask_task st r now) = None"
    by (simp add: addTask_task_def)
  moreover have "trim (newTaskDesc st) \<noteq> '''' \<longrightarrow>
      t_description (addTask_task st r now) = Some (trim (newTaskDesc st))"
    by (simp add: addTask_task_def)
  ultimately show "\<exists>t. tasks (addTask st r now) = tasks st @ [t] \<and>
           t_title t = trim (newTaskTitle st) \<and>
           (trim (newTaskDesc st) = '''' \<longrightarrow> t_description t = None) \<and>
           (trim (newTaskDesc st) \<noteq> '''' \<longrightarrow> t_description t = Some (trim (newTaskDesc st)))"
    by blast
next
  assume "trim (newTodo st) \<noteq> ''''"
  then have "todos (addTodo st r) = todos st @
      [\<lparr>q_id = generateId r, q_text = trim (newTodo st), q_done = False\<rparr>]"
    by (simp add: addTodo_def)
  then show "\<exists>q. todos (addTodo st r) = todos st @ [q] \<and> q_text q = trim (newTodo st)"
    by simp
qed

lemma trim_examples:
  "trim ''  ship it  '' = ''ship it''" "trim '' '' = ''''" "trim '''' = ''''" "trim ''milk'' = ''milk''"
  by (simp_all add: trim_def isWhiteSpace_def)

theorem add_rejects_empty_stores_trimmed_witness:
  "addTask (board\<lparr>newTaskTitle := '' ''\<rparr>) ''0.k2j5h1x9qpa'' 5 = board\<lparr>newTaskTitle := '' ''\<rparr> \<and>
   addTodo (board\<lparr>newTodo := '' ''\<rparr>) ''0.k2j5h1x9qpa'' = board\<lparr>newTodo := '' ''\<rparr> \<and>
   tasks (addTask (board\<lparr>newTaskTitle := ''  ship it  '', newTaskDesc := '' ''\<rparr>) ''0.k2j5h1x9qpa'' 5)
     = tasks board @ [\<lparr>t_id = ''k2j5h1x9q'', t_title = ''ship it'', t_description = None,
                       t_status = ''todo'', t_createdAt = 5\<rparr>] \<and>
   todos (addTodo (board\<lparr>newTodo := ''milk''\<rparr>) ''0.k2j5h1x9qpa'')
     = todos board @ [\<lparr>q_id = ''k2j5h1x9q'', q_text = ''milk'', q_done = False\<rparr>]"
proof -
  have 1: "addTask (board\<lparr>newTaskTitle := '' ''\<rparr>) ''0.k2j5h1x9qpa'' 5 = board\<lparr>newTaskTitle := '' ''\<rparr>"
    using add_rejects_empty_stores_trimmed [of "board\<lparr>newTaskTitle := '' ''\<rparr>" "''0.k2j5h1x9qpa''" 5]
    by (simp add: trim_examples)
  have 2: "addTodo (board\<lparr>newTodo := '' ''\<rparr>) ''0.k2j5h1x9qpa'' = board\<lparr>newTodo := '' ''\<rparr>"
    using add_rejects_empty_stores_trimmed [of "board\<lparr>newTodo := '' ''\<rparr>" "''0.k2j5h1x9qpa''"]
    by (simp add: trim_examples)
  have 3: "tasks (addTask (board\<lparr>newTaskTitle := ''  ship it  '', newTaskDesc := '' ''\<rparr>) ''0.k2j5h1x9qpa'' 5)
     = tasks board @ [\<lparr>t_id = ''k2j5h1x9q'', t_title = ''ship it'', t_description = None,
                       t_status = ''todo'', t_createdAt = 5\<rparr>]"
    by (simp add: addTask_def addTask_task_def trim_examples generateId_def slice_def
        board_def initial_def)
  have 4: "todos (addTodo (board\<lparr>newTodo := ''milk''\<rparr>) ''0.k2j5h1x9qpa'')
     = todos board @ [\<lparr>q_id = ''k2j5h1x9q'', q_text = ''milk'', q_done = False\<rparr>]"
    by (simp add: addTodo_def trim_examples generateId_def slice_def)
  from 1 2 3 4 show ?thesis by simp
qed

section \<open>What the handlers do to the tasks\<close>

lemma step_tasks_cases:
  "tasks (step st e) = tasks st \<or>
   (\<exists>a s. tasks (step st e) = set_status a s (tasks st)) \<or>
   (\<exists>i. tasks (step st e) = filter (\<lambda>t. t_id t \<noteq> i) (tasks st)) \<or>
   (\<exists>r now. e = AddTask r now \<and> trim (newTaskTitle st) \<noteq> '''' \<and>
      tasks (step st e) = tasks st @ [addTask_task st r now])"
proof (cases e)
  case (HandleDragEnd ev)
  then show ?thesis using handleDragEnd_tasks_cases [of st ev] by auto
next
  case (HandleDragStart a)
  then show ?thesis by (simp add: handleDragStart_def split: option.splits)
next
  case (AddTask r now)
  then show ?thesis by (simp add: addTask_def)
next
  case (DeleteTask i)
  then have "tasks (step st e) = filter (\<lambda>t. t_id t \<noteq> i) (tasks st)"
    by (simp add: deleteTask_def)
  then show ?thesis by blast
qed (simp_all add: addTodo_def toggleTodo_def deleteTodo_def openAddTask_def)

lemma handleDragEnd_nth_other:
  assumes "k < length (tasks st)" and "IdString (t_id (tasks st ! k)) \<noteq> active_id ev"
  shows "tasks (handleDragEnd st ev) ! k = tasks st ! k"
proof -
  from handleDragEnd_tasks_cases [of st ev] show ?thesis
  proof (elim disjE exE)
    assume "tasks (handleDragEnd st ev) = tasks st"
    then show ?thesis by simp
  next
    fix s assume "tasks (handleDragEnd st ev) = set_status (active_id ev) s (tasks st)"
    then show ?thesis using assms by (simp add: nth_set_status)
  qed
qed

lemma dup_tasks:
  "tasks dup =
     [\<lparr>t_id = ''k2j5h1x9q'', t_title = ''write'', t_description = None, t_status = ''todo'',
        t_createdAt = 1000\<rparr>,
      \<lparr>t_id = ''k2j5h1x9q'', t_title = ''review'', t_description = None, t_status = ''todo'',
        t_createdAt = 2000\<rparr>]"
  by (simp add: dup_def twice_def initial_def openAddTask_def addTask_def addTask_task_def
      trim_def isWhiteSpace_def generateId_def slice_def)

lemma dup_dragged:
  "tasks (handleDragEnd dup (drag ''k2j5h1x9q'' ''complete'')) =
     [\<lparr>t_id = ''k2j5h1x9q'', t_title = ''write'', t_description = None,
        t_status = ''complete'', t_createdAt = 1000\<rparr>,
      \<lparr>t_id = ''k2j5h1x9q'', t_title = ''review'', t_description = None,
        t_status = ''complete'', t_createdAt = 2000\<rparr>]"
  by (simp add: handleDragEnd_def dup_tasks drag_def find_task_def COLUMNS_def set_status_def)

text \<open>
  C4, as stated, fails on a board with two tasks of one id, which two calls of
  \<^verbatim>\<open>addTask\<close> with the same random draw leave: the dragged task is the first one
  (the one \<^verbatim>\<open>tasks.find\<close> returns), the second is another task, and the drag rewrites
  the status of the second as well, since \<^verbatim>\<open>prev.map\<close> rewrites every task that has
  the dragged id.
\<close>

theorem drag_rewrites_other_task_counterexample:
  "find_task (active_id (drag ''k2j5h1x9q'' ''complete'')) (tasks dup) = Some (tasks dup ! 0) \<and>
   tasks dup ! 1 \<noteq> tasks dup ! 0 \<and>
   t_status (tasks dup ! 1) = ''todo'' \<and>
   t_status (tasks (handleDragEnd dup (drag ''k2j5h1x9q'' ''complete'')) ! 1) = ''complete'' \<and>
   tasks (handleDragEnd dup (drag ''k2j5h1x9q'' ''complete'')) ! 1 \<noteq> tasks dup ! 1"
proof -
  have found: "find_task (active_id (drag ''k2j5h1x9q'' ''complete'')) (tasks dup)
      = Some (tasks dup ! 0)"
    by (simp add: dup_tasks drag_def find_task_def)
  have rewritten: "tasks dup ! 1 \<noteq> tasks dup ! 0 \<and>
      t_status (tasks dup ! 1) = ''todo'' \<and>
      t_status (tasks (handleDragEnd dup (drag ''k2j5h1x9q'' ''complete'')) ! 1) = ''complete'' \<and>
      tasks (handleDragEnd dup (drag ''k2j5h1x9q'' ''complete'')) ! 1 \<noteq> tasks dup ! 1"
    by (simp add: dup_dragged dup_tasks)
  from found rewritten show ?thesis by (rule conjI)
qed

text \<open>
  C4, amended. A drag keeps the number and the positions of the tasks; at every position
  it keeps the id, the title, the description and the creation time, and it keeps the
  whole task when its id is not the dragged id; when the ids are pairwise distinct, that
  is every task other than the dragged one. After any handler at all, each stored task is
  either a task stored before, up to its status, or the task that this call of
  \<^verbatim>\<open>addTask\<close> has just created.
\<close>

theorem tasks_change_only_in_status:
  "length (tasks (handleDragEnd st ev)) = length (tasks st) \<and>
   (\<forall>k < length (tasks st).
      t_id (tasks (handleDragEnd st ev) ! k) = t_id (tasks st ! k) \<and>
      t_title (tasks (handleDragEnd st ev) ! k) = t_title (tasks st ! k) \<and>
      t_description (tasks (handleDragEnd st ev) ! k) = t_description (tasks st ! k) \<and>
      t_createdAt (tasks (handleDragEnd st ev) ! k) = t_createdAt (tasks st ! k) \<and>
      (IdString (t_id (tasks st ! k)) \<noteq> active_id ev \<longrightarrow>
         tasks (handleDragEnd st ev) ! k = tasks st ! k)) \<and>
   (distinct (map t_id (tasks st)) \<and> find_task (active_id ev) (tasks st) = Some a \<longrightarrow>
      (\<forall>k < length (tasks st).
         tasks st ! k \<noteq> a \<longrightarrow> tasks (handleDragEnd st ev) ! k = tasks st ! k)) \<and>
   (\<forall>t' \<in> set (tasks (step st e)).
      (\<exists>t \<in> set (tasks st). t' = t\<lparr>t_status := t_status t'\<rparr>) \<or>
      (\<exists>r now. e = AddTask r now \<and> t' = addTask_task st r now))"
proof (intro conjI allI impI ballI)
  show "length (tasks (handleDragEnd st ev)) = length (tasks st)"
    using handleDragEnd_tasks_cases [of st ev] by (auto simp: length_set_status)
next
  fix k assume k: "k < length (tasks st)"
  have nth: "tasks (handleDragEnd st ev) ! k = tasks st ! k \<or>
     (\<exists>s. tasks (handleDragEnd st ev) ! k =
        (if IdString (t_id (tasks st ! k)) = active_id ev then (tasks st ! k)\<lparr>t_status := s\<rparr>
         else tasks st ! k))"
    using handleDragEnd_tasks_cases [of st ev] nth_set_status [OF k, of "active_id ev"]
    by metis
  from nth show "t_id (tasks (handleDragEnd st ev) ! k) = t_id (tasks st ! k)"
    by (elim disjE exE) (simp_all split: if_splits)
  from nth show "t_title (tasks (handleDragEnd st ev) ! k) = t_title (tasks st ! k)"
    by (elim disjE exE) (simp_all split: if_splits)
  from nth show "t_description (tasks (handleDragEnd st ev) ! k) = t_description (tasks st ! k)"
    by (elim disjE exE) (simp_all split: if_splits)
  from nth show "t_createdAt (tasks (handleDragEnd st ev) ! k) = t_createdAt (tasks st ! k)"
    by (elim disjE exE) (simp_all split: if_splits)
  assume "IdString (t_id (tasks st ! k)) \<noteq> active_id ev"
  with k show "tasks (handleDragEnd st ev) ! k = tasks st ! k"
    by (rule handleDragEnd_nth_other)
next
  fix k
  assume h: "distinct (map t_id (tasks st)) \<and> find_task (active_id ev) (tasks st) = Some a"
    and k: "k < length (tasks st)" and ne: "tasks st ! k \<noteq> a"
  have "IdString (t_id (tasks st ! k)) \<noteq> active_id ev"
  proof
    assume eq: "IdString (t_id (tasks st ! k)) = active_id ev"
    from h have d: "distinct (map t_id (tasks st))" by (rule conjunct1)
    from k have m: "tasks st ! k \<in> set (tasks st)" by (rule nth_mem)
    have "find_task (IdString (t_id (tasks st ! k))) (tasks st) = Some (tasks st ! k)"
      using d m by (rule find_task_distinct)
    then have "find_task (active_id ev) (tasks st) = Some (tasks st ! k)"
      by (simp only: eq)
    moreover from h have "find_task (active_id ev) (tasks st) = Some a" by (rule conjunct2)
    ultimately have "Some (tasks st ! k) = Some a" by (rule trans [OF sym])
    then have "tasks st ! k = a" by (simp only: option.inject)
    with ne show False by contradiction
  qed
  with k show "tasks (handleDragEnd st ev) ! k = tasks st ! k"
    by (rule handleDragEnd_nth_other)
next
  fix t' assume t': "t' \<in> set (tasks (step st e))"
  from step_tasks_cases [of st e]
  show "(\<exists>t \<in> set (tasks st). t' = t\<lparr>t_status := t_status t'\<rparr>) \<or>
      (\<exists>r now. e = AddTask r now \<and> t' = addTask_task st r now)"
  proof (elim disjE exE conjE)
    assume "tasks (step st e) = tasks st"
    with t' have "t' \<in> set (tasks st)" by simp
    moreover have "t' = t'\<lparr>t_status := t_status t'\<rparr>" by simp
    ultimately show ?thesis by blast
  next
    fix a s assume "tasks (step st e) = set_status a s (tasks st)"
    with t' show ?thesis using set_status_member by metis
  next
    fix i assume "tasks (step st e) = filter (\<lambda>t. t_id t \<noteq> i) (tasks st)"
    with t' have "t' \<in> set (tasks st)" by simp
    moreover have "t' = t'\<lparr>t_status := t_status t'\<rparr>" by simp
    ultimately show ?thesis by blast
  next
    fix r now assume e: "e = AddTask r now"
      and "tasks (step st e) = tasks st @ [addTask_task st r now]"
    with t' have "t' \<in> set (tasks st) \<or> t' = addTask_task st r now" by auto
    then show ?thesis
    proof
      assume "t' \<in> set (tasks st)"
      moreover have "t' = t'\<lparr>t_status := t_status t'\<rparr>" by simp
      ultimately show ?thesis by blast
    next
      assume "t' = addTask_task st r now"
      with e show ?thesis by blast
    qed
  qed
qed

theorem tasks_change_only_in_status_witness:
  "tasks (handleDragEnd board (drag ''a1'' ''complete'')) ! 0
     = \<lparr>t_id = ''a1'', t_title = ''write'', t_description = None, t_status = ''complete'',
        t_createdAt = 1000\<rparr> \<and>
   tasks board ! 0
     = \<lparr>t_id = ''a1'', t_title = ''write'', t_description = None, t_status = ''todo'',
        t_createdAt = 1000\<rparr> \<and>
   distinct (map t_id (tasks board)) \<and>
   tasks (handleDragEnd board (drag ''a1'' ''complete'')) ! 1 = tasks board ! 1 \<and>
   tasks (handleDragEnd board (drag ''a1'' ''complete'')) ! 2 = tasks board ! 2 \<and>
   length (tasks (handleDragEnd board (drag ''a1'' ''complete''))) = 3"
proof -
  have len: "length (tasks board) = 3"
    and i1: "IdString (t_id (tasks board ! 1)) \<noteq> active_id (drag ''a1'' ''complete'')"
    and n2: "tasks board ! 2 \<noteq> tasks board ! 0"
    and d: "distinct (map t_id (tasks board))"
    and f: "find_task (active_id (drag ''a1'' ''complete'')) (tasks board) = Some (tasks board ! 0)"
    and b0: "tasks board ! 0
     = \<lparr>t_id = ''a1'', t_title = ''write'', t_description = None, t_status = ''todo'',
        t_createdAt = 1000\<rparr>"
    by (simp_all add: board_def initial_def drag_def find_task_def)
  have a0: "tasks (handleDragEnd board (drag ''a1'' ''complete'')) ! 0
     = \<lparr>t_id = ''a1'', t_title = ''write'', t_description = None, t_status = ''complete'',
        t_createdAt = 1000\<rparr>"
    by (simp add: handleDragEnd_def board_def initial_def drag_def find_task_def COLUMNS_def
        set_status_def)
  note inst = tasks_change_only_in_status
    [where st = board and ev = "drag ''a1'' ''complete''" and a = "tasks board ! 0"
       and e = CloseTaskModal]
  from inst have "length (tasks (handleDragEnd board (drag ''a1'' ''complete''))) = length (tasks board)"
    by (rule conjunct1)
  with len have l: "length (tasks (handleDragEnd board (drag ''a1'' ''complete''))) = 3"
    by simp
  from inst have all: "\<forall>k < length (tasks board).
      IdString (t_id (tasks board ! k)) \<noteq> active_id (drag ''a1'' ''complete'') \<longrightarrow>
         tasks (handleDragEnd board (drag ''a1'' ''complete'')) ! k = tasks board ! k"
    by blast
  from inst d f have others: "\<forall>k < length (tasks board).
      tasks board ! k \<noteq> tasks board ! 0 \<longrightarrow>
         tasks (handleDragEnd board (drag ''a1'' ''complete'')) ! k = tasks board ! k"
    by blast
  from all len i1 have k1: "tasks (handleDragEnd board (drag ''a1'' ''complete'')) ! 1 = tasks board ! 1"
    by simp
  from others len n2 have k2: "tasks (handleDragEnd board (drag ''a1'' ''complete'')) ! 2 = tasks board ! 2"
    by simp
  from a0 b0 d k1 k2 l show ?thesis by simp
qed

section \<open>The status of a task\<close>

lemma find_task_mem: "find_task i ts = Some t \<Longrightarrow> t \<in> set ts"
  by (auto simp: find_task_def find_Some_iff in_set_conv_nth)

lemma statuses_ok_set_status:
  "statuses_ok ts \<Longrightarrow> s \<in> TaskStatus_values \<Longrightarrow> statuses_ok (set_status a s ts)"
  by (induction ts) (simp_all add: statuses_ok_def set_status_def)

lemma statuses_ok_mem: "statuses_ok ts \<Longrightarrow> t \<in> set ts \<Longrightarrow> t_status t \<in> TaskStatus_values"
  by (simp add: statuses_ok_def list_all_iff)

lemma statuses_ok_handleDragEnd:
  assumes "statuses_ok (tasks st)"
  shows "statuses_ok (tasks (handleDragEnd st ev))"
proof (cases "over_id ev")
  case None
  with assms show ?thesis by (simp add: handleDragEnd_def)
next
  case (Some ov)
  show ?thesis
  proof (cases "find_task (active_id ev) (tasks st)")
    case None
    with Some assms show ?thesis by (simp add: handleDragEnd_def)
  next
    case dragged: (Some a)
    show ?thesis
    proof (cases "find (\<lambda>c. IdString (c_id c) = ov) COLUMNS")
      case (Some col)
      then have "c_id col \<in> TaskStatus_values" by (rule find_COLUMNS_status)
      with assms have "statuses_ok (set_status (active_id ev) (c_id col) (tasks st))"
        by (simp add: statuses_ok_set_status)
      with \<open>over_id ev = Some ov\<close> dragged Some show ?thesis
        by (simp add: handleDragEnd_def)
    next
      case none: None
      show ?thesis
      proof (cases "find_task ov (tasks st)")
        case None
        with \<open>over_id ev = Some ov\<close> dragged none assms show ?thesis
          by (simp add: handleDragEnd_def)
      next
        case (Some b)
        then have "t_status b \<in> TaskStatus_values"
          using assms find_task_mem statuses_ok_mem by blast
        with assms have "statuses_ok (set_status (active_id ev) (t_status b) (tasks st))"
          by (simp add: statuses_ok_set_status)
        with \<open>over_id ev = Some ov\<close> dragged none Some assms show ?thesis
          by (simp add: handleDragEnd_def Let_def)
      qed
    qed
  qed
qed

lemma statuses_ok_addTask:
  "statuses_ok (tasks st) \<Longrightarrow> newTaskStatus st \<in> TaskStatus_values \<Longrightarrow>
     statuses_ok (tasks (addTask st r now))"
  by (simp add: addTask_def addTask_task_def statuses_ok_def)

lemma statuses_ok_deleteTask:
  "statuses_ok (tasks st) \<Longrightarrow> statuses_ok (tasks (deleteTask st i))"
  by (simp add: deleteTask_def statuses_ok_def list_all_iff)

lemma COLUMNS_ids: "set (map c_id COLUMNS) = TaskStatus_values"
  by (auto simp: COLUMNS_def TaskStatus_values_def)

lemma status_inv_step:
  assumes "statuses_ok (tasks st)" and "newTaskStatus st \<in> TaskStatus_values" and "wired e"
  shows "statuses_ok (tasks (step st e)) \<and> newTaskStatus (step st e) \<in> TaskStatus_values"
proof (cases e)
  case (HandleDragEnd ev)
  with assms statuses_ok_handleDragEnd [of st ev] show ?thesis
    by (simp add: handleDragEnd_def Let_def split: option.splits)
next
  case (AddTask r now)
  with assms statuses_ok_addTask [of st r now] show ?thesis
    by (simp add: addTask_def)
next
  case (DeleteTask i)
  with assms statuses_ok_deleteTask [of st i] show ?thesis
    by (simp add: deleteTask_def)
next
  case (OpenAddTask s)
  with assms show ?thesis
    using COLUMNS_ids by (simp add: openAddTask_def)
next
  case (HandleDragStart a)
  with assms show ?thesis by (simp add: handleDragStart_def split: option.splits)
qed (use assms in \<open>simp_all add: addTodo_def toggleTodo_def deleteTodo_def\<close>)

lemma status_inv_run:
  "statuses_ok (tasks st) \<Longrightarrow> newTaskStatus st \<in> TaskStatus_values \<Longrightarrow> list_all wired es \<Longrightarrow>
     statuses_ok (tasks (run st es)) \<and> newTaskStatus (run st es) \<in> TaskStatus_values"
proof (induction es arbitrary: st)
  case Nil
  then show ?case by simp
next
  case (Cons e es)
  from Cons.prems have "statuses_ok (tasks (step st e)) \<and> newTaskStatus (step st e) \<in> TaskStatus_values"
    using status_inv_step [of st e] by simp
  with Cons.prems Cons.IH [of "step st e"] show ?case by simp
qed

text \<open>
  C2. Starting from stored tasks whose statuses are among the three values (none, when
  nothing is stored), every state the interface reaches has only tasks with a status
  among the three values; and \<^verbatim>\<open>addTask\<close> (the status chosen in the form being one
  of the three), \<^verbatim>\<open>deleteTask\<close> and \<^verbatim>\<open>handleDragEnd\<close> each keep that property.
\<close>

theorem status_is_one_of_three:
  "(statuses_ok ts \<and> list_all wired es \<longrightarrow> statuses_ok (tasks (run (initial ts qs n) es))) \<and>
   (statuses_ok (tasks st) \<and> newTaskStatus st \<in> TaskStatus_values \<longrightarrow>
      statuses_ok (tasks (addTask st r now))) \<and>
   (statuses_ok (tasks st) \<longrightarrow> statuses_ok (tasks (deleteTask st i))) \<and>
   (statuses_ok (tasks st) \<longrightarrow> statuses_ok (tasks (handleDragEnd st ev)))"
proof (intro conjI impI)
  assume h: "statuses_ok ts \<and> list_all wired es"
  have "newTaskStatus (initial ts qs n) \<in> TaskStatus_values" "tasks (initial ts qs n) = ts"
    by (simp_all add: initial_def TaskStatus_values_def)
  with h show "statuses_ok (tasks (run (initial ts qs n) es))"
    using status_inv_run [of "initial ts qs n" es] by simp
next
  assume "statuses_ok (tasks st) \<and> newTaskStatus st \<in> TaskStatus_values"
  then show "statuses_ok (tasks (addTask st r now))" by (simp add: statuses_ok_addTask)
next
  assume "statuses_ok (tasks st)"
  then show "statuses_ok (tasks (deleteTask st i))" by (rule statuses_ok_deleteTask)
next
  assume "statuses_ok (tasks st)"
  then show "statuses_ok (tasks (handleDragEnd st ev))" by (rule statuses_ok_handleDragEnd)
qed

theorem status_is_one_of_three_witness:
  "statuses_ok (tasks (run (initial [] [] '''') session)) \<and>
   map t_status (tasks (run (initial [] [] '''') session)) = [''in-progress''] \<and>
   statuses_ok (tasks (addTask (board\<lparr>newTaskTitle := ''milk''\<rparr>) ''0.zz'' 7)) \<and>
   statuses_ok (tasks (deleteTask (board\<lparr>newTaskTitle := ''milk''\<rparr>) ''a1'')) \<and>
   statuses_ok (tasks (handleDragEnd (board\<lparr>newTaskTitle := ''milk''\<rparr>) (drag ''a1'' ''b2'')))"
proof -
  have w: "list_all wired session" "statuses_ok []"
    by (simp_all add: session_def COLUMNS_def statuses_ok_def)
  have b: "statuses_ok (tasks board)" "newTaskStatus (board\<lparr>newTaskTitle := ''milk''\<rparr>) \<in> TaskStatus_values"
    by (simp_all add: board_def initial_def statuses_ok_def TaskStatus_values_def)
  have m: "map t_status (tasks (run (initial [] [] '''') session)) = [''in-progress'']"
    by (simp add: session_def initial_def openAddTask_def addTask_def addTask_task_def
        trim_def isWhiteSpace_def generateId_def slice_def handleDragEnd_def drag_def
        find_task_def COLUMNS_def set_status_def deleteTask_def)
  from status_is_one_of_three [of "[]" session "[]" "''''" "board\<lparr>newTaskTitle := ''milk''\<rparr>" "''0.zz''" 7 "''a1''"
      "drag ''a1'' ''b2''"] w b m
  show ?thesis by simp
qed

section \<open>Identifiers\<close>

text \<open>
  C3, as stated, fails: \<^verbatim>\<open>generateId\<close> draws at random and nothing compares the
  id it returns with the ids in use. Two calls of \<^verbatim>\<open>addTask\<close> for which
  \<^verbatim>\<open>Math.random\<close> returns the same number store two tasks with one id.
\<close>

theorem generateId_collision_counterexample:
  "map t_id (tasks (run (initial [] [] '''') twice)) = [''k2j5h1x9q'', ''k2j5h1x9q''] \<and>
   \<not> distinct (map t_id (tasks (run (initial [] [] '''') twice)))"
  by (simp add: twice_def initial_def openAddTask_def addTask_def addTask_task_def
      trim_def isWhiteSpace_def generateId_def slice_def)

text \<open>
  C3, amended. When the ids of the collection are pairwise distinct and the input is
  accepted, the ids are pairwise distinct after \<^verbatim>\<open>addTask\<close> (\<^verbatim>\<open>addTodo\<close>)
  exactly when the id that \<^verbatim>\<open>generateId\<close> returns is not yet an id of the
  collection.
\<close>

theorem ids_distinct_iff_fresh:
  "(trim (newTaskTitle st) \<noteq> '''' \<and> distinct (map t_id (tasks st)) \<longrightarrow>
      (distinct (map t_id (tasks (addTask st r now))) \<longleftrightarrow>
       generateId r \<notin> set (map t_id (tasks st)))) \<and>
   (trim (newTodo st) \<noteq> '''' \<and> distinct (map q_id (todos st)) \<longrightarrow>
      (distinct (map q_id (todos (addTodo st r))) \<longleftrightarrow>
       generateId r \<notin> set (map q_id (todos st))))"
proof (intro conjI impI)
  assume h: "trim (newTaskTitle st) \<noteq> '''' \<and> distinct (map t_id (tasks st))"
  then have "map t_id (tasks (addTask st r now)) = map t_id (tasks st) @ [generateId r]"
    by (simp add: addTask_def addTask_task_def)
  with h show "distinct (map t_id (tasks (addTask st r now))) \<longleftrightarrow>
       generateId r \<notin> set (map t_id (tasks st))"
    by simp
next
  assume h: "trim (newTodo st) \<noteq> '''' \<and> distinct (map q_id (todos st))"
  then have "map q_id (todos (addTodo st r)) = map q_id (todos st) @ [generateId r]"
    by (simp add: addTodo_def)
  with h show "distinct (map q_id (todos (addTodo st r))) \<longleftrightarrow>
       generateId r \<notin> set (map q_id (todos st))"
    by simp
qed

theorem ids_distinct_iff_fresh_witness:
  "distinct (map t_id (tasks (addTask (board\<lparr>newTaskTitle := ''milk'', newTodo := ''post''\<rparr>) ''0.k2j5h1x9qpa'' 7))) \<and>
   distinct (map q_id (todos (addTodo (board\<lparr>newTaskTitle := ''milk'', newTodo := ''post''\<rparr>) ''0.k2j5h1x9qpa'')))"
proof -
  let ?st = "board\<lparr>newTaskTitle := ''milk'', newTodo := ''post''\<rparr>"
  have "trim (newTaskTitle ?st) \<noteq> ''''" "trim (newTodo ?st) \<noteq> ''''"
    by (simp_all add: trim_def isWhiteSpace_def)
  moreover have "distinct (map t_id (tasks ?st))" "distinct (map q_id (todos ?st))"
    "generateId ''0.k2j5h1x9qpa'' \<notin> set (map t_id (tasks ?st))"
    "generateId ''0.k2j5h1x9qpa'' \<notin> set (map q_id (todos ?st))"
    by (simp_all add: board_def initial_def generateId_def slice_def)
  ultimately show ?thesis
    using ids_distinct_iff_fresh [of ?st "''0.k2j5h1x9qpa''" 7] by blast
qed

section \<open>The order of the stored tasks\<close>

lemma set_status_no_match:
  "\<forall>t \<in> set xs. IdString (t_id t) \<noteq> a \<Longrightarrow> set_status a s xs = xs"
  by (induction xs) (simp_all add: set_status_def)

lemma set_status_one_update:
  "distinct (map t_id xs) \<Longrightarrow> \<exists>k. set_status a s xs = xs[k := (xs ! k)\<lparr>t_status := s\<rparr>]"
proof (induction xs)
  case Nil
  then show ?case by (simp add: set_status_def)
next
  case (Cons x xs)
  show ?case
  proof (cases "IdString (t_id x) = a")
    case True
    from Cons.prems have fresh: "t_id x \<notin> t_id ` set xs" by simp
    have "\<forall>t \<in> set xs. IdString (t_id t) \<noteq> a"
    proof (intro ballI notI)
      fix t assume t: "t \<in> set xs" and ta: "IdString (t_id t) = a"
      have "IdString (t_id t) = IdString (t_id x)" by (simp only: ta True)
      then have eq: "t_id t = t_id x" by simp
      from t have "t_id t \<in> t_id ` set xs" by (rule imageI)
      with eq fresh show False by simp
    qed
    then have "set_status a s xs = xs" by (rule set_status_no_match)
    with True have "set_status a s (x # xs) = (x # xs)[0 := ((x # xs) ! 0)\<lparr>t_status := s\<rparr>]"
      by (simp add: set_status_def)
    then show ?thesis by blast
  next
    case False
    from Cons.prems have "distinct (map t_id xs)" by simp
    then obtain k where "set_status a s xs = xs[k := (xs ! k)\<lparr>t_status := s\<rparr>]"
      using Cons.IH by blast
    with False have "set_status a s (x # xs) = (x # xs)[Suc k := ((x # xs) ! Suc k)\<lparr>t_status := s\<rparr>]"
      by (simp add: set_status_def)
    then show ?thesis by blast
  qed
qed

lemma map_core_handleDragEnd: "map core (tasks (handleDragEnd st ev)) = map core (tasks st)"
proof -
  from handleDragEnd_tasks_cases [of st ev] show ?thesis
  proof (elim disjE exE)
    assume "tasks (handleDragEnd st ev) = tasks st"
    then show ?thesis by simp
  next
    fix s assume "tasks (handleDragEnd st ev) = set_status (active_id ev) s (tasks st)"
    then show ?thesis by (simp add: map_core_set_status)
  qed
qed

lemma step_keeps_order:
  "subseq (map core (tasks (step st e) @ inserted (step st e) es))
          (map core (tasks st @ inserted st (e # es)))"
proof (cases e)
  case (HandleDragEnd ev)
  then show ?thesis by (simp add: map_core_handleDragEnd)
next
  case (HandleDragStart a)
  then show ?thesis by (simp add: handleDragStart_def split: option.splits)
next
  case (AddTask r now)
  then show ?thesis by (simp add: addTask_def)
next
  case (DeleteTask i)
  have "subseq (map core (filter (\<lambda>t. t_id t \<noteq> i) (tasks st))) (map core (tasks st))"
    by (simp add: subseq_map)
  then have "subseq (map core (filter (\<lambda>t. t_id t \<noteq> i) (tasks st)) @ map core (inserted (step st e) es))
                    (map core (tasks st) @ map core (inserted (step st e) es))"
    by (rule list_emb_append_mono) simp
  with DeleteTask show ?thesis by (simp add: deleteTask_def)
next
  case (SetNewTodo v) then show ?thesis by simp
next
  case (AddTodo r) then show ?thesis by (simp add: addTodo_def)
next
  case (ToggleTodo i) then show ?thesis by (simp add: toggleTodo_def)
next
  case (DeleteTodo i) then show ?thesis by (simp add: deleteTodo_def)
next
  case (SetNotes v) then show ?thesis by simp
next
  case (OpenAddTask s) then show ?thesis by (simp add: openAddTask_def)
next
  case CloseTaskModal then show ?thesis by simp
next
  case (SetNewTaskTitle v) then show ?thesis by simp
next
  case (SetNewTaskDesc v) then show ?thesis by simp
qed

lemma run_keeps_order:
  "subseq (map core (tasks (run st es))) (map core (tasks st @ inserted st es))"
proof (induction es arbitrary: st)
  case Nil
  then show ?case by simp
next
  case (Cons e es)
  have "subseq (map core (tasks (run (step st e) es)))
          (map core (tasks (step st e) @ inserted (step st e) es))"
    by (rule Cons.IH)
  moreover have "subseq (map core (tasks (step st e) @ inserted (step st e) es))
     (map core (tasks st @ inserted st (e # es)))"
    by (rule step_keeps_order)
  ultimately have "subseq (map core (tasks (run (step st e) es)))
     (map core (tasks st @ inserted st (e # es)))"
    by (rule subseq_order.trans)
  then show ?case by simp
qed

text \<open>
  C5, as stated, fails in its parenthesis on the board with two tasks of one id: the
  drag rewrites the status field of two elements, not of one.
\<close>

theorem drag_rewrites_two_elements_counterexample:
  "map t_status (tasks dup) = [''todo'', ''todo''] \<and>
   map t_status (tasks (handleDragEnd dup (drag ''k2j5h1x9q'' ''complete'')))
     = [''complete'', ''complete''] \<and>
   tasks (handleDragEnd dup (drag ''k2j5h1x9q'' ''complete'')) ! 0 \<noteq> tasks dup ! 0 \<and>
   tasks (handleDragEnd dup (drag ''k2j5h1x9q'' ''complete'')) ! 1 \<noteq> tasks dup ! 1"
  by (simp add: dup_dragged dup_tasks)

text \<open>
  C5, amended. A drag keeps the stored sequence of tasks apart from their statuses (it
  rewrites status fields in place) and, when the ids are pairwise distinct, it rewrites
  the status of one element only; \<^verbatim>\<open>addTask\<close> appends the task it creates at the
  end. So in every state reached from a state \<open>st\<close>, the stored tasks are, in this
  order and apart from their statuses, tasks of \<open>st\<close> followed by tasks created since,
  in the order of their creation.
\<close>

theorem stored_order_is_insertion_order:
  "map core (tasks (handleDragEnd st ev)) = map core (tasks st) \<and>
   (distinct (map t_id (tasks st)) \<longrightarrow>
      (\<exists>k s. tasks (handleDragEnd st ev) = (tasks st)[k := (tasks st ! k)\<lparr>t_status := s\<rparr>])) \<and>
   tasks (addTask st r now)
     = (if trim (newTaskTitle st) = '''' then tasks st else tasks st @ [addTask_task st r now]) \<and>
   subseq (map core (tasks (run st es))) (map core (tasks st @ inserted st es))"
proof (intro conjI impI)
  show "map core (tasks (handleDragEnd st ev)) = map core (tasks st)"
    by (rule map_core_handleDragEnd)
next
  assume d: "distinct (map t_id (tasks st))"
  from handleDragEnd_tasks_cases [of st ev]
  show "\<exists>k s. tasks (handleDragEnd st ev) = (tasks st)[k := (tasks st ! k)\<lparr>t_status := s\<rparr>]"
  proof (elim disjE exE)
    assume "tasks (handleDragEnd st ev) = tasks st"
    then have "tasks (handleDragEnd st ev)
      = (tasks st)[length (tasks st) := (tasks st ! length (tasks st))\<lparr>t_status := ''''\<rparr>]"
      by (simp add: list_update_beyond)
    then show ?thesis by blast
  next
    fix s assume eq: "tasks (handleDragEnd st ev) = set_status (active_id ev) s (tasks st)"
    from set_status_one_update [OF d, of "active_id ev" s]
    obtain k where "set_status (active_id ev) s (tasks st) = (tasks st)[k := (tasks st ! k)\<lparr>t_status := s\<rparr>]"
      by blast
    with eq have "tasks (handleDragEnd st ev) = (tasks st)[k := (tasks st ! k)\<lparr>t_status := s\<rparr>]"
      by simp
    then show ?thesis by blast
  qed
next
  show "tasks (addTask st r now)
     = (if trim (newTaskTitle st) = '''' then tasks st else tasks st @ [addTask_task st r now])"
    by (simp add: addTask_def)
next
  show "subseq (map core (tasks (run st es))) (map core (tasks st @ inserted st es))"
    by (rule run_keeps_order)
qed

theorem stored_order_is_insertion_order_witness:
  "tasks (handleDragEnd board (drag ''a1'' ''complete''))
     = (tasks board)[0 := (tasks board ! 0)\<lparr>t_status := ''complete''\<rparr>] \<and>
   distinct (map t_id (tasks board)) \<and>
   map t_id (tasks (run (initial [] [] '''') session)) = [''k2j5h1x9q''] \<and>
   map t_id (inserted (initial [] [] '''') session) = [''k2j5h1x9q'', ''zz''] \<and>
   subseq (map core (tasks (run (initial [] [] '''') session)))
          (map core (inserted (initial [] [] '''') session))"
proof -
  have d: "distinct (map t_id (tasks board))"
    by (simp add: board_def initial_def)
  have u: "tasks (handleDragEnd board (drag ''a1'' ''complete''))
     = (tasks board)[0 := (tasks board ! 0)\<lparr>t_status := ''complete''\<rparr>]"
    by (simp add: handleDragEnd_def board_def initial_def drag_def find_task_def COLUMNS_def
        set_status_def)
  have t: "map t_id (tasks (run (initial [] [] '''') session)) = [''k2j5h1x9q'']"
    by (simp add: session_def initial_def openAddTask_def addTask_def addTask_task_def
        trim_def isWhiteSpace_def generateId_def slice_def handleDragEnd_def drag_def
        find_task_def COLUMNS_def set_status_def deleteTask_def)
  have i: "map t_id (inserted (initial [] [] '''') session) = [''k2j5h1x9q'', ''zz'']"
    by (simp add: session_def initial_def openAddTask_def addTask_def addTask_task_def
        trim_def isWhiteSpace_def generateId_def slice_def handleDragEnd_def drag_def
        find_task_def COLUMNS_def set_status_def deleteTask_def)
  have e: "tasks (initial [] [] '''') = []" by (simp add: initial_def)
  from stored_order_is_insertion_order
    [of "initial [] [] ''''" "drag ''a1'' ''complete''" "''0.zz''" 7 session]
  have "subseq (map core (tasks (run (initial [] [] '''') session)))
          (map core (tasks (initial [] [] '''') @ inserted (initial [] [] '''') session))"
    by blast
  then have s: "subseq (map core (tasks (run (initial [] [] '''') session)))
          (map core (inserted (initial [] [] '''') session))"
    unfolding e by simp
  from d u t i s show ?thesis by blast
qed

section \<open>JSON: digits and quoted strings\<close>

subsection \<open>Decimal digits\<close>

lemma digit_code: "(d::nat) < 10 \<Longrightarrow> (of_char (char_of (48 + d)) :: nat) = 48 + d"
  by simp

lemma is_digit_char_of: "(d::nat) < 10 \<Longrightarrow> is_digit (char_of (48 + d))"
  by (simp add: is_digit_def)

lemma digits_nonempty: "digits n \<noteq> []"
  by (subst digits.simps) simp

lemma digits_all: "list_all is_digit (digits n)"
proof (induction n rule: digits.induct)
  case (1 n)
  show ?case
  proof (cases "n < 10")
    case True
    then show ?thesis by (subst digits.simps) (simp add: is_digit_char_of)
  next
    case False
    with 1 have "list_all is_digit (digits (n div 10))" by simp
    moreover have "is_digit (char_of (48 + n mod 10))" by (rule is_digit_char_of) simp
    ultimately show ?thesis using False by (subst digits.simps) simp
  qed
qed

lemma nat_of_digits_snoc:
  "nat_of_digits (ds @ [c]) = 10 * nat_of_digits ds + (of_char c - 48)"
  by (simp add: nat_of_digits_def)

lemma nat_of_digits_digits: "nat_of_digits (digits n) = n"
proof (induction n rule: digits.induct)
  case (1 n)
  show ?case
  proof (cases "n < 10")
    case True
    then show ?thesis by (subst digits.simps) (simp add: nat_of_digits_def)
  next
    case False
    with 1 have "nat_of_digits (digits (n div 10)) = n div 10" by simp
    moreover have "(of_char (char_of (48 + n mod 10)) :: nat) - 48 = n mod 10"
      by (subst digit_code) simp_all
    ultimately show ?thesis using False
      by (subst digits.simps) (simp add: nat_of_digits_snoc)
  qed
qed

lemma digits_hd_code: "0 < n \<Longrightarrow> (of_char (hd (digits n)) :: nat) \<noteq> 48"
proof (induction n rule: digits.induct)
  case (1 n)
  show ?case
  proof (cases "n < 10")
    case True
    with 1(2) show ?thesis by (subst digits.simps) simp
  next
    case False
    then have "0 < n div 10" by simp
    with 1(1) False have "(of_char (hd (digits (n div 10))) :: nat) \<noteq> 48" by simp
    then show ?thesis using False digits_nonempty [of "n div 10"]
      by (subst digits.simps) simp
  qed
qed

lemma digits_length_one: "n < 10 \<Longrightarrow> length (digits n) = 1"
  by (subst digits.simps) simp

lemma digits_no_leading_zero: "\<not> (hd (digits n) = CHR ''0'' \<and> 1 < length (digits n))"
proof (cases "n < 10")
  case True
  then show ?thesis by (simp add: digits_length_one)
next
  case False
  then have "(of_char (hd (digits n)) :: nat) \<noteq> 48" by (intro digits_hd_code) simp
  then have "hd (digits n) \<noteq> CHR ''0''" by auto
  then show ?thesis by simp
qed

lemma is_digit_hd_digits: "is_digit (hd (digits n))"
  using digits_all [of n] digits_nonempty [of n]
  by (cases "digits n") simp_all

lemma delimited_no_digit: "delimited r \<Longrightarrow> takeWhile is_digit r = [] \<and> dropWhile is_digit r = r"
  by (cases r) (auto simp: delimited_def is_digit_def)

lemma delimited_no_frac_exp:
  "delimited r \<Longrightarrow> \<not> (r \<noteq> [] \<and> hd r = CHR ''.'') \<and> \<not> (r \<noteq> [] \<and> (hd r = CHR ''e'' \<or> hd r = CHR ''E''))"
  by (auto simp: delimited_def)

lemma span_digits:
  assumes "delimited r"
  shows "takeWhile is_digit (digits n @ r) = digits n" "dropWhile is_digit (digits n @ r) = r"
proof -
  have all: "\<And>x. x \<in> set (digits n) \<Longrightarrow> is_digit x"
    using digits_all [of n] by (simp add: list_all_iff)
  show "takeWhile is_digit (digits n @ r) = digits n"
    using all delimited_no_digit [OF assms] by (simp add: takeWhile_append2)
  show "dropWhile is_digit (digits n @ r) = r"
    using all delimited_no_digit [OF assms] by (simp add: dropWhile_append2)
qed

lemma number_int_digits:
  assumes "delimited r"
  shows "number_int (digits n @ r) = Some (digits n, r)"
  unfolding number_int_def Let_def span_digits [OF assms]
  using digits_nonempty [of n] digits_no_leading_zero [of n] by simp

lemma number_frac_none: "delimited r \<Longrightarrow> number_frac r = Some ([], r)"
  by (cases r) (auto simp: number_frac_def delimited_def)

lemma number_exp_none: "delimited r \<Longrightarrow> number_exp r = Some (0, r)"
  by (cases r) (auto simp: number_exp_def delimited_def)

lemma number_sign_digits: "number_sign (digits n @ r) = (False, digits n @ r)"
proof -
  obtain c cs where d: "digits n = c # cs"
    using digits_nonempty [of n] by (cases "digits n") auto
  then have "is_digit c" using is_digit_hd_digits [of n] by simp
  then have "c \<noteq> CHR ''-''" by (auto simp: is_digit_def)
  then show ?thesis by (simp add: number_sign_def d)
qed

lemma decimal_zero_exp: "decimal neg m 0 = Some (if neg then - int m else int m)"
  by (simp add: decimal_def)

lemma parse_number_digits:
  assumes "delimited r"
  shows "parse_number (digits n @ r) = Inr (int n, r)"
  by (simp add: parse_number_def number_sign_digits number_int_digits [OF assms]
      number_frac_none [OF assms] number_exp_none [OF assms] nat_of_digits_digits
      decimal_zero_exp)

lemma parse_number_minus_digits:
  assumes "delimited r"
  shows "parse_number (CHR ''-'' # digits n @ r) = Inr (- int n, r)"
  by (simp add: parse_number_def number_sign_def number_int_digits [OF assms]
      number_frac_none [OF assms] number_exp_none [OF assms] nat_of_digits_digits
      decimal_zero_exp)

lemma parse_number_show_int:
  assumes "delimited r"
  shows "parse_number (show_int i @ r) = Inr (i, r)"
proof (cases "i < 0")
  case True
  then show ?thesis
    using parse_number_minus_digits [OF assms, of "nat (- i)"] by (simp add: show_int_def)
next
  case False
  then show ?thesis
    using parse_number_digits [OF assms, of "nat i"] by (simp add: show_int_def)
qed

lemma show_int_start:
  "show_int i \<noteq> [] \<and> (hd (show_int i) = CHR ''-'' \<or> is_digit (hd (show_int i)))"
  using digits_nonempty is_digit_hd_digits by (simp add: show_int_def)

subsection \<open>Quoted strings\<close>

lemma hex_val_hex_digit: "k < 16 \<Longrightarrow> hex_val (hex_digit k) = Some k"
  by (simp add: hex_val_def hex_digit_def Let_def)

lemma char_of_code:
  "(of_char c :: nat) = 8 \<Longrightarrow> c = CHR 0x08"
  "(of_char c :: nat) = 9 \<Longrightarrow> c = CHR 0x09"
  "(of_char c :: nat) = 10 \<Longrightarrow> c = CHR 0x0A"
  "(of_char c :: nat) = 12 \<Longrightarrow> c = CHR 0x0C"
  "(of_char c :: nat) = 13 \<Longrightarrow> c = CHR 0x0D"
  "(of_char c :: nat) = 34 \<Longrightarrow> c = CHR 0x22"
  "(of_char c :: nat) = 92 \<Longrightarrow> c = CHR 0x5C"
  by (rule of_char_eqI [where ?'a = nat], simp)+

lemma quote_char_special:
  "quote_char (CHR 0x08) = [CHR 0x5C, CHR ''b'']"
  "quote_char (CHR 0x09) = [CHR 0x5C, CHR ''t'']"
  "quote_char (CHR 0x0A) = [CHR 0x5C, CHR ''n'']"
  "quote_char (CHR 0x0C) = [CHR 0x5C, CHR ''f'']"
  "quote_char (CHR 0x0D) = [CHR 0x5C, CHR ''r'']"
  "quote_char (CHR 0x22) = [CHR 0x5C, CHR 0x22]"
  "quote_char (CHR 0x5C) = [CHR 0x5C, CHR 0x5C]"
  by (simp_all add: quote_char_def)

lemma string_body_special:
  "string_body (quote_char (CHR 0x08) @ r) = prepend (CHR 0x08) (string_body r)"
  "string_body (quote_char (CHR 0x09) @ r) = prepend (CHR 0x09) (string_body r)"
  "string_body (quote_char (CHR 0x0A) @ r) = prepend (CHR 0x0A) (string_body r)"
  "string_body (quote_char (CHR 0x0C) @ r) = prepend (CHR 0x0C) (string_body r)"
  "string_body (quote_char (CHR 0x0D) @ r) = prepend (CHR 0x0D) (string_body r)"
  "string_body (quote_char (CHR 0x22) @ r) = prepend (CHR 0x22) (string_body r)"
  "string_body (quote_char (CHR 0x5C) @ r) = prepend (CHR 0x5C) (string_body r)"
  by (simp_all add: quote_char_special unescape_def)

lemma string_body_control:
  assumes "(n::nat) < 32" "n \<notin> {8, 9, 10, 12, 13}"
  shows "string_body (quote_char (char_of n) @ r) = prepend (char_of n) (string_body r)"
proof -
  have code: "(of_char (char_of n :: char) :: nat) = n" using assms(1) by simp
  have q: "quote_char (char_of n) =
      [CHR 0x5C, CHR ''u'', CHR ''0'', CHR ''0'', hex_digit (n div 16), hex_digit (n mod 16)]"
    using assms unfolding quote_char_def Let_def code by simp
  have d: "n div 16 < 16" "n mod 16 < 16" using assms(1) by simp_all
  have h: "hex4 (CHR ''0'' # CHR ''0'' # hex_digit (n div 16) # hex_digit (n mod 16) # r) = Some n"
    using hex_val_hex_digit [OF d(1)] hex_val_hex_digit [OF d(2)]
    by (simp add: hex4_def hex_val_def)
  have "string_body (CHR 0x5C # CHR ''u'' # CHR ''0'' # CHR ''0'' # hex_digit (n div 16)
          # hex_digit (n mod 16) # r) = prepend (char_of n) (string_body r)"
    using h assms(1) by simp
  then show ?thesis by (simp add: q)
qed

lemma string_body_raw:
  assumes "32 \<le> (of_char c :: nat)" "c \<noteq> CHR 0x22" "c \<noteq> CHR 0x5C"
  shows "string_body (quote_char c @ r) = prepend c (string_body r)"
proof -
  have "(of_char c :: nat) \<noteq> 34" "(of_char c :: nat) \<noteq> 92"
    using assms(2,3) char_of_code(6,7) [of c] by blast+
  with assms(1) have q: "quote_char c = [c]"
    by (simp add: quote_char_def Let_def)
  show ?thesis using assms by (simp add: q)
qed

lemma string_body_quote_char: "string_body (quote_char c @ r) = prepend c (string_body r)"
proof -
  define n where "n = (of_char c :: nat)"
  have cn: "char_of n = c" by (simp add: n_def)
  have cover: "n = 8 \<or> n = 9 \<or> n = 10 \<or> n = 12 \<or> n = 13 \<or> n = 34 \<or> n = 92 \<or>
      (n < 32 \<and> n \<noteq> 8 \<and> n \<noteq> 9 \<and> n \<noteq> 10 \<and> n \<noteq> 12 \<and> n \<noteq> 13) \<or>
      (32 \<le> n \<and> n \<noteq> 34 \<and> n \<noteq> 92)"
    by arith
  from cover show ?thesis
  proof (elim disjE conjE)
    assume "n = 8"
    then have "c = CHR 0x08" by (intro char_of_code) (simp add: n_def)
    then show ?thesis by (simp only: string_body_special)
  next
    assume "n = 9"
    then have "c = CHR 0x09" by (intro char_of_code) (simp add: n_def)
    then show ?thesis by (simp only: string_body_special)
  next
    assume "n = 10"
    then have "c = CHR 0x0A" by (intro char_of_code) (simp add: n_def)
    then show ?thesis by (simp only: string_body_special)
  next
    assume "n = 12"
    then have "c = CHR 0x0C" by (intro char_of_code) (simp add: n_def)
    then show ?thesis by (simp only: string_body_special)
  next
    assume "n = 13"
    then have "c = CHR 0x0D" by (intro char_of_code) (simp add: n_def)
    then show ?thesis by (simp only: string_body_special)
  next
    assume "n = 34"
    then have "c = CHR 0x22" by (intro char_of_code) (simp add: n_def)
    then show ?thesis by (simp only: string_body_special)
  next
    assume "n = 92"
    then have "c = CHR 0x5C" by (intro char_of_code) (simp add: n_def)
    then show ?thesis by (simp only: string_body_special)
  next
    assume "n < 32" "n \<noteq> 8" "n \<noteq> 9" "n \<noteq> 10" "n \<noteq> 12" "n \<noteq> 13"
    then have "string_body (quote_char (char_of n) @ r) = prepend (char_of n) (string_body r)"
      by (intro string_body_control) simp_all
    then show ?thesis by (simp only: cn)
  next
    assume raw: "32 \<le> n" "n \<noteq> 34" "n \<noteq> 92"
    have "c \<noteq> CHR 0x22" "c \<noteq> CHR 0x5C" using raw(2,3) by (auto simp: n_def)
    with raw(1) show ?thesis by (intro string_body_raw) (simp_all add: n_def)
  qed
qed

lemma string_body_quoted:
  "string_body (concat (map quote_char s) @ CHR 0x22 # r) = Inr (s, r)"
  by (induction s) (simp_all add: string_body_quote_char prepend_def)

section \<open>Parsing what stringify writes\<close>

lemma wrap_Inr [simp]: "wrap f (Inr (x, r)) = Inr (f x, r)"
  by (simp add: wrap_def)

lemma wrap_Inl [simp]: "wrap f (Inl e) = Inl e"
  by (simp add: wrap_def)

lemma stringify_object: "JSON_stringify (JObject ms) = CHR ''{'' # commas (map member_text ms) @ ''}''"
  by (simp add: member_text_def [abs_def])

lemma snd_in_snds: "snd m \<in> Basic_BNFs.snds m"
  by (cases m) simp

lemma is_digit_not_special:
  "is_digit c \<Longrightarrow> \<not> is_ws c \<and> c \<noteq> CHR '']'' \<and> c \<noteq> CHR ''}'' \<and> c \<noteq> CHR ''['' \<and> c \<noteq> CHR ''{'' \<and> c \<noteq> CHR 0x22"
  by (auto simp: is_digit_def is_ws_def)

lemma starts_value_show_int: "starts_value (show_int i)"
  using show_int_start [of i] is_digit_not_special [of "hd (show_int i)"]
  by (auto simp: starts_value_def is_ws_def)

lemma starts_value_stringify: "starts_value (JSON_stringify v)"
proof (cases v)
  case (JNumber i)
  then show ?thesis using starts_value_show_int by simp
qed (simp_all add: starts_value_def is_ws_def QuoteJSONString_def)

lemma starts_value_append: "starts_value s \<Longrightarrow> starts_value (s @ r)"
  by (cases s) (simp_all add: starts_value_def)

lemma starts_value_commas:
  assumes "ss \<noteq> []" and "starts_value (hd ss)"
  shows "starts_value (commas ss @ r)"
proof (cases ss)
  case Nil
  with assms show ?thesis by simp
next
  case (Cons s ss')
  with assms(2) have "starts_value s" by simp
  then show ?thesis unfolding Cons by (cases ss') (simp_all add: starts_value_append)
qed

lemma skip_ws_starts_value: "starts_value s \<Longrightarrow> skip_ws s = s"
  by (cases s) (simp_all add: starts_value_def skip_ws_def)

lemma skip_ws_punct [simp]:
  "skip_ws (CHR '','' # r) = CHR '','' # r"
  "skip_ws (CHR '']'' # r) = CHR '']'' # r"
  "skip_ws (CHR ''}'' # r) = CHR ''}'' # r"
  "skip_ws (CHR '':'' # r) = CHR '':'' # r"
  "skip_ws (CHR ''['' # r) = CHR ''['' # r"
  "skip_ws (CHR ''{'' # r) = CHR ''{'' # r"
  "skip_ws (CHR 0x22 # r) = CHR 0x22 # r"
  by (simp_all add: skip_ws_def is_ws_def)

lemma delimited_punct [simp]:
  "delimited (CHR '','' # r)" "delimited (CHR '']'' # r)" "delimited (CHR ''}'' # r)" "delimited []"
  by (simp_all add: delimited_def)

subsection \<open>Atoms\<close>

lemma parse_value_null: "parse_value (Suc n) (''null'' @ r) = Inr (JNull, r)"
  by (simp add: is_digit_def skip_ws_def is_ws_def)

lemma parse_value_true: "parse_value (Suc n) (''true'' @ r) = Inr (JBool True, r)"
  by (simp add: is_digit_def skip_ws_def is_ws_def)

lemma parse_value_false: "parse_value (Suc n) (''false'' @ r) = Inr (JBool False, r)"
  by (simp add: is_digit_def skip_ws_def is_ws_def)

lemma parse_value_string:
  "parse_value (Suc n) (QuoteJSONString s @ r) = Inr (JString s, r)"
  by (simp add: QuoteJSONString_def string_body_quoted)

lemma parse_value_number:
  assumes "delimited r"
  shows "parse_value (Suc n) (show_int i @ r) = Inr (JNumber i, r)"
proof -
  obtain c cs where s: "show_int i @ r = c # cs" and c: "c = CHR ''-'' \<or> is_digit c"
    using show_int_start [of i] by (cases "show_int i") auto
  have nw: "skip_ws (c # cs) = c # cs"
    using c is_digit_not_special [of c] by (auto simp: skip_ws_def is_ws_def)
  have ns: "c \<noteq> CHR ''['' \<and> c \<noteq> CHR ''{'' \<and> c \<noteq> CHR 0x22"
    using c is_digit_not_special [of c] by auto
  have "parse_number (c # cs) = Inr (i, r)"
    using parse_number_show_int [OF assms, of i] by (simp add: s)
  then show ?thesis
    unfolding s using nw ns c by simp
qed

subsection \<open>Elements and members\<close>

lemma parse_elements_commas:
  assumes "\<And>x n r. x \<in> set xs \<Longrightarrow> need x \<le> n \<Longrightarrow> delimited r \<Longrightarrow>
             parse_value n (JSON_stringify x @ r) = Inr (x, r)"
    and "xs \<noteq> []" and "length xs + sum_list (map need xs) \<le> n"
  shows "parse_elements n (commas (map JSON_stringify xs) @ CHR '']'' # r) = Inr (xs, r)"
  using assms
proof (induction xs arbitrary: n)
  case Nil
  then show ?case by simp
next
  case (Cons x xs)
  from Cons.prems(3) obtain k where n: "n = Suc k" and k: "need x \<le> k"
    "length xs + sum_list (map need xs) \<le> k"
    by (cases n) auto
  show ?case
  proof (cases xs)
    case Nil
    have "parse_value k (JSON_stringify x @ CHR '']'' # r) = Inr (x, CHR '']'' # r)"
      using Cons.prems(1) [of x k] k(1) by simp
    then show ?thesis by (simp add: n Nil)
  next
    case (Cons y ys)
    have v: "parse_value k (JSON_stringify x @ CHR '','' # commas (map JSON_stringify xs) @ CHR '']'' # r)
        = Inr (x, CHR '','' # commas (map JSON_stringify xs) @ CHR '']'' # r)"
      using Cons.prems(1) [of x k] k(1) by simp
    have "parse_elements k (commas (map JSON_stringify xs) @ CHR '']'' # r) = Inr (xs, r)"
      using Cons.prems(1) k(2) Cons by (intro Cons.IH) simp_all
    with v show ?thesis by (simp add: n Cons prepend_def)
  qed
qed

lemma parse_members_step:
  assumes "parse_value k (JSON_stringify v @ d # t) = Inr (v, d # t)"
    and "d = CHR '','' \<or> d = CHR ''}''"
  shows "parse_members (Suc k) (member_text (key, v) @ d # t) =
           (if d = CHR '','' then prepend (key, v) (parse_members k t) else Inr ([(key, v)], t))"
proof -
  have key: "string_body (concat (map quote_char key) @ CHR 0x22 # CHR '':'' # JSON_stringify v @ d # t)
      = Inr (key, CHR '':'' # JSON_stringify v @ d # t)"
    by (rule string_body_quoted)
  from assms(2) have d: "skip_ws (d # t) = d # t" by auto
  show ?thesis
    using assms by (auto simp: member_text_def QuoteJSONString_def key d)
qed

lemma parse_members_commas:
  assumes "\<And>m n r. m \<in> set ms \<Longrightarrow> need (snd m) \<le> n \<Longrightarrow> delimited r \<Longrightarrow>
             parse_value n (JSON_stringify (snd m) @ r) = Inr (snd m, r)"
    and "ms \<noteq> []" and "length ms + sum_list (map (\<lambda>m. need (snd m)) ms) \<le> n"
  shows "parse_members n (commas (map member_text ms) @ CHR ''}'' # r) = Inr (ms, r)"
  using assms
proof (induction ms arbitrary: n)
  case Nil
  then show ?case by simp
next
  case (Cons m ms)
  from Cons.prems(3) obtain k where n: "n = Suc k" and k: "need (snd m) \<le> k"
    "length ms + sum_list (map (\<lambda>m. need (snd m)) ms) \<le> k"
    by (cases n) auto
  obtain key v where m: "m = (key, v)" by (cases m)
  show ?case
  proof (cases ms)
    case Nil
    have "parse_value k (JSON_stringify v @ CHR ''}'' # r) = Inr (v, CHR ''}'' # r)"
      using Cons.prems(1) [of m k] k(1) by (simp add: m)
    then have "parse_members (Suc k) (member_text (key, v) @ CHR ''}'' # r) = Inr ([(key, v)], r)"
      using parse_members_step [of k v "CHR ''}''" r key] by simp
    then show ?thesis by (simp add: n Nil m)
  next
    case (Cons m' ms')
    let ?t = "commas (map member_text ms) @ CHR ''}'' # r"
    have "parse_value k (JSON_stringify v @ CHR '','' # ?t) = Inr (v, CHR '','' # ?t)"
      using Cons.prems(1) [of m k] k(1) by (simp add: m)
    then have s: "parse_members (Suc k) (member_text (key, v) @ CHR '','' # ?t)
        = prepend (key, v) (parse_members k ?t)"
      using parse_members_step [of k v "CHR '',''" ?t key] by simp
    have "parse_members k ?t = Inr (ms, r)"
      using Cons.prems(1) k(2) Cons by (intro Cons.IH) simp_all
    with s have "parse_members (Suc k) (member_text (key, v) @ CHR '','' # ?t) = Inr (m # ms, r)"
      by (simp add: prepend_def m)
    moreover have "commas (map member_text (m # ms)) @ CHR ''}'' # r
        = member_text (key, v) @ CHR '','' # ?t"
      by (simp add: Cons m)
    ultimately show ?thesis by (simp only: n)
  qed
qed

subsection \<open>Values\<close>

lemma parse_value_array:
  assumes "\<And>x n r. x \<in> set xs \<Longrightarrow> need x \<le> n \<Longrightarrow> delimited r \<Longrightarrow>
             parse_value n (JSON_stringify x @ r) = Inr (x, r)"
    and "need (JArray xs) \<le> n"
  shows "parse_value n (JSON_stringify (JArray xs) @ r) = Inr (JArray xs, r)"
proof -
  from assms(2) obtain k where n: "n = Suc k" and k: "length xs + sum_list (map need xs) \<le> k"
    by (cases n) auto
  show ?thesis
  proof (cases "xs = []")
    case True
    then show ?thesis by (simp add: n)
  next
    case False
    let ?t = "commas (map JSON_stringify xs) @ CHR '']'' # r"
    have "starts_value ?t"
      using False by (intro starts_value_commas) (simp_all add: hd_map starts_value_stringify)
    then obtain d ds where t: "skip_ws ?t = d # ds" and d: "d \<noteq> CHR '']''"
      by (cases ?t) (auto simp: skip_ws_starts_value starts_value_def)
    have "parse_elements k ?t = Inr (xs, r)"
      using assms(1) False k by (rule parse_elements_commas)
    with t d show ?thesis by (simp add: n)
  qed
qed

lemma parse_value_object:
  assumes "\<And>m n r. m \<in> set ms \<Longrightarrow> need (snd m) \<le> n \<Longrightarrow> delimited r \<Longrightarrow>
             parse_value n (JSON_stringify (snd m) @ r) = Inr (snd m, r)"
    and "need (JObject ms) \<le> n"
  shows "parse_value n (JSON_stringify (JObject ms) @ r) = Inr (JObject ms, r)"
proof -
  from assms(2) obtain k where n: "n = Suc k"
    and k: "length ms + sum_list (map (\<lambda>m. need (snd m)) ms) \<le> k"
    by (cases n) auto
  show ?thesis
  proof (cases "ms = []")
    case True
    then show ?thesis by (simp add: n)
  next
    case False
    let ?t = "commas (map member_text ms) @ CHR ''}'' # r"
    have "starts_value (member_text (hd ms))"
      by (simp add: member_text_def QuoteJSONString_def starts_value_def is_ws_def)
    then have "starts_value ?t"
      using False by (intro starts_value_commas) (simp_all add: hd_map)
    then obtain d ds where t: "skip_ws ?t = d # ds" and d: "d \<noteq> CHR ''}''"
      by (cases ?t) (auto simp: skip_ws_starts_value starts_value_def)
    have "parse_members k ?t = Inr (ms, r)"
      using assms(1) False k by (rule parse_members_commas)
    with t d show ?thesis by (simp add: n stringify_object del: JSON_stringify.simps)
  qed
qed

theorem parse_value_stringify:
  "need v \<le> n \<Longrightarrow> delimited r \<Longrightarrow> parse_value n (JSON_stringify v @ r) = Inr (v, r)"
proof (induction v arbitrary: n r)
  case JNull
  then show ?case using parse_value_null by (cases n) simp_all
next
  case (JBool b)
  then show ?case using parse_value_true parse_value_false by (cases n; cases b) simp_all
next
  case (JNumber i)
  then show ?case using parse_value_number by (cases n) simp_all
next
  case (JString s)
  then show ?case using parse_value_string by (cases n) simp_all
next
  case (JArray xs)
  show ?case by (rule parse_value_array) (use JArray in auto)
next
  case (JObject ms)
  show ?case
  proof (rule parse_value_object)
    fix m k t assume "m \<in> set ms" "need (snd m) \<le> k" "delimited t"
    then show "parse_value k (JSON_stringify (snd m) @ t) = Inr (snd m, t)"
      using JObject.IH [of m "snd m" k t] snd_in_snds [of m] by simp
  qed (use JObject.prems in simp)
qed

subsection \<open>The text is long enough to pay for its own parsing\<close>

lemma length_commas: "length (commas ss) + 1 = sum_list (map length ss) + length ss \<or> ss = []"
  by (induction ss rule: commas.induct) auto

lemma need_le_length: "need v \<le> length (JSON_stringify v)"
proof (induction v)
  case (JArray xs)
  have "sum_list (map need xs) \<le> sum_list (map (length \<circ> JSON_stringify) xs)"
    using JArray by (intro sum_list_mono) simp
  then show ?case
    using length_commas [of "map JSON_stringify xs"] by (auto simp: o_def)
next
  case (JObject ms)
  have "sum_list (map (\<lambda>m. need (snd m)) ms) \<le> sum_list (map (length \<circ> member_text) ms)"
  proof (intro sum_list_mono)
    fix m assume "m \<in> set ms"
    then have "need (snd m) \<le> length (JSON_stringify (snd m))"
      using JObject [of m "snd m"] snd_in_snds [of m] by simp
    then show "need (snd m) \<le> (length \<circ> member_text) m"
      by (simp add: member_text_def)
  qed
  then show ?case
    using length_commas [of "map member_text ms"]
    by (auto simp: o_def stringify_object simp del: JSON_stringify.simps)
qed (simp_all add: show_int_def QuoteJSONString_def digits_nonempty Suc_le_eq)

theorem JSON_parse_stringify: "JSON_parse (JSON_stringify v) = Inr v"
proof -
  have "need v \<le> Suc (2 * length (JSON_stringify v))"
    using need_le_length [of v] by simp
  then have "parse_value (Suc (2 * length (JSON_stringify v))) (JSON_stringify v @ []) = Inr (v, [])"
    by (rule parse_value_stringify) simp
  then show ?thesis by (simp add: JSON_parse_def skip_ws_def)
qed

lemma JSON_stringify_nonempty: "JSON_stringify v \<noteq> []"
  using starts_value_stringify [of v] by (simp add: starts_value_def)

section \<open>The fuel of the parser never runs out\<close>

lemma skip_ws_length: "length (skip_ws s) \<le> length s"
  by (simp add: skip_ws_def length_dropWhile_le)

lemma skip_ws_Cons: "skip_ws s = c # cs \<Longrightarrow> length cs < length s"
  using skip_ws_length [of s] by simp

lemma prepend_Inr: "prepend x res = Inr (ys, r) \<Longrightarrow> \<exists>zs. res = Inr (zs, r)"
  by (cases res) (auto simp: prepend_def)

lemma prepend_Inl: "prepend x res = Inl e \<Longrightarrow> res = Inl e"
  by (cases res) (auto simp: prepend_def)

lemma string_body_cases:
  "string_body (c # cs) = Inr ([], cs) \<or>
   string_body (c # cs) = Inl SyntaxError \<or>
   string_body (c # cs) = Inl Unmodelled \<or>
   (\<exists>x t. string_body (c # cs) = prepend x (string_body t) \<and> length t \<le> length cs)"
proof (cases "c = CHR 0x22")
  case True
  then show ?thesis by simp
next
  case nq: False
  show ?thesis
  proof (cases "c = CHR 0x5C")
    case bs: True
    show ?thesis
    proof (cases cs)
      case Nil
      with nq bs show ?thesis by simp
    next
      case (Cons e t)
      show ?thesis
      proof (cases "e = CHR ''u''")
        case u: True
        show ?thesis
        proof (cases "hex4 t")
          case None
          with nq bs Cons u show ?thesis by simp
        next
          case (Some n)
          show ?thesis
          proof (cases "n < 256")
            case True
            with nq bs Cons u Some
            have "string_body (c # cs) = prepend (char_of n) (string_body (drop 4 t))" by simp
            moreover have "length (drop 4 t) \<le> length cs" by (simp add: Cons)
            ultimately show ?thesis by blast
          next
            case False
            with nq bs Cons u Some show ?thesis by simp
          qed
        qed
      next
        case nu: False
        show ?thesis
        proof (cases "unescape e")
          case None
          with nq bs Cons nu show ?thesis by simp
        next
          case (Some x)
          with nq bs Cons nu have "string_body (c # cs) = prepend x (string_body t)" by simp
          moreover have "length t \<le> length cs" by (simp add: Cons)
          ultimately show ?thesis by blast
        qed
      qed
    qed
  next
    case nb: False
    show ?thesis
    proof (cases "(of_char c :: nat) < 32")
      case True
      with nq nb show ?thesis by simp
    next
      case False
      with nq nb have "string_body (c # cs) = prepend c (string_body cs)" by simp
      then show ?thesis by blast
    qed
  qed
qed

lemma string_body_consumes: "string_body s = Inr (x, r) \<Longrightarrow> length r < length s"
proof (induction s arbitrary: x rule: length_induct)
  case (1 s)
  show ?case
  proof (cases s)
    case Nil
    with 1(2) show ?thesis by simp
  next
    case (Cons c cs)
    from string_body_cases [of c cs] show ?thesis
    proof (elim disjE exE conjE)
      assume "string_body (c # cs) = Inr ([], cs)"
      with 1(2) Cons show ?thesis by (simp del: string_body.simps)
    next
      assume "string_body (c # cs) = Inl SyntaxError"
      with 1(2) Cons show ?thesis by (simp del: string_body.simps)
    next
      assume "string_body (c # cs) = Inl Unmodelled"
      with 1(2) Cons show ?thesis by (simp del: string_body.simps)
    next
      fix y t assume p: "string_body (c # cs) = prepend y (string_body t)" and t: "length t \<le> length cs"
      from 1(2) have sb: "string_body (c # cs) = Inr (x, r)" unfolding Cons .
      from sb have "prepend y (string_body t) = Inr (x, r)" unfolding p .
      from prepend_Inr [OF this] obtain zs where z: "string_body t = Inr (zs, r)" ..
      from t have lt: "length t < length s" unfolding Cons by simp
      from 1(1) [rule_format, OF lt z] have "length r < length t" .
      with t show ?thesis unfolding Cons by simp
    qed
  qed
qed

lemma string_body_fuel: "string_body s \<noteq> Inl OutOfFuel"
proof (induction s rule: length_induct)
  case (1 s)
  show ?case
  proof (cases s)
    case Nil
    then show ?thesis by simp
  next
    case (Cons c cs)
    from string_body_cases [of c cs] show ?thesis
    proof (elim disjE exE conjE)
      fix y t assume p: "string_body (c # cs) = prepend y (string_body t)" and t: "length t \<le> length cs"
      from t have lt: "length t < length s" unfolding Cons by simp
      from 1 [rule_format, OF lt] have nf: "string_body t \<noteq> Inl OutOfFuel" .
      have "prepend y (string_body t) \<noteq> Inl OutOfFuel"
      proof
        assume "prepend y (string_body t) = Inl OutOfFuel"
        from prepend_Inl [OF this] nf show False by contradiction
      qed
      then have "string_body (c # cs) \<noteq> Inl OutOfFuel" unfolding p .
      then show ?thesis unfolding Cons .
    qed (simp_all add: Cons del: string_body.simps)
  qed
qed

lemma span_length: "length (takeWhile P s) + length (dropWhile P s) = length s"
proof -
  have "length (takeWhile P s @ dropWhile P s) = length s" by simp
  then show ?thesis by (simp only: length_append)
qed

lemma number_int_consumes:
  assumes "number_int s = Some (ip, r)"
  shows "length r < length s"
proof -
  from assms have "takeWhile is_digit s \<noteq> []" and r: "r = dropWhile is_digit s"
    by (simp_all add: number_int_def Let_def split: if_splits)
  then have "0 < length (takeWhile is_digit s)" by simp
  with span_length [of is_digit s] show ?thesis unfolding r by linarith
qed

lemma number_frac_consumes:
  assumes "number_frac s = Some (fp, r)"
  shows "length r \<le> length s"
proof (cases s)
  case Nil
  with assms show ?thesis by (simp add: number_frac_def)
next
  case (Cons c cs)
  show ?thesis
  proof (cases "c = CHR ''.''")
    case True
    with assms Cons have "r = dropWhile is_digit cs"
      by (simp add: number_frac_def split: if_splits)
    then show ?thesis using length_dropWhile_le [of is_digit cs] Cons by simp
  next
    case False
    with assms Cons show ?thesis by (simp add: number_frac_def)
  qed
qed

lemma number_exp_consumes:
  assumes "number_exp s = Some (ex, r)"
  shows "length r \<le> length s"
proof (cases s)
  case Nil
  with assms show ?thesis by (simp add: number_exp_def)
next
  case (Cons c cs)
  show ?thesis
  proof (cases "c = CHR ''e'' \<or> c = CHR ''E''")
    case True
    define sg where "sg = (case cs of [] \<Rightarrow> (False, cs)
        | g # t \<Rightarrow> if g = CHR ''-'' then (True, t) else if g = CHR ''+'' then (False, t) else (False, cs))"
    have l: "length (snd sg) \<le> length cs"
      by (cases cs) (simp_all add: sg_def)
    from assms Cons True have "r = dropWhile is_digit (snd sg)"
      by (simp add: number_exp_def sg_def [symmetric] case_prod_unfold Let_def split: if_splits)
    then show ?thesis using length_dropWhile_le [of is_digit "snd sg"] l Cons by simp
  next
    case False
    with assms Cons show ?thesis by (simp add: number_exp_def)
  qed
qed

lemma number_sign_consumes: "number_sign s = (neg, r) \<Longrightarrow> length r \<le> length s"
  by (cases s) (auto simp: number_sign_def split: if_splits)

lemma parse_number_consumes:
  assumes "parse_number s = Inr (i, r)"
  shows "length r < length s"
proof -
  obtain neg s1 where s1: "number_sign s = (neg, s1)" by (cases "number_sign s")
  from assms s1 obtain ip s2 where s2: "number_int s1 = Some (ip, s2)"
    by (cases "number_int s1") (auto simp: parse_number_def)
  from assms s1 s2 obtain fp s3 where s3: "number_frac s2 = Some (fp, s3)"
    by (cases "number_frac s2") (auto simp: parse_number_def)
  from assms s1 s2 s3 obtain ex s4 where s4: "number_exp s3 = Some (ex, s4)"
    by (cases "number_exp s3") (auto simp: parse_number_def)
  from assms s1 s2 s3 s4 have "r = s4"
    by (simp add: parse_number_def split: option.splits)
  with number_sign_consumes [OF s1] number_int_consumes [OF s2] number_frac_consumes [OF s3]
    number_exp_consumes [OF s4]
  show ?thesis by simp
qed

lemma parse_number_fuel: "parse_number s \<noteq> Inl OutOfFuel"
proof -
  obtain neg s1 where s1: "number_sign s = (neg, s1)" by (cases "number_sign s")
  show ?thesis
  proof (cases "number_int s1")
    case None
    with s1 show ?thesis by (simp add: parse_number_def)
  next
    case (Some p1)
    obtain ip s2 where p1: "p1 = (ip, s2)" by (cases p1)
    show ?thesis
    proof (cases "number_frac s2")
      case None
      with s1 Some p1 show ?thesis by (simp add: parse_number_def)
    next
      case f: (Some p2)
      obtain fp s3 where p2: "p2 = (fp, s3)" by (cases p2)
      show ?thesis
      proof (cases "number_exp s3")
        case None
        with s1 Some p1 f p2 show ?thesis by (simp add: parse_number_def)
      next
        case e: (Some p3)
        obtain ex s4 where p3: "p3 = (ex, s4)" by (cases p3)
        show ?thesis
          by (cases "decimal neg (nat_of_digits (ip @ fp)) (ex - int (length fp))")
            (simp_all add: parse_number_def s1 Some p1 f p2 e p3)
      qed
    qed
  qed
qed

lemma wrap_Inr_D: "wrap f res = Inr (v, r) \<Longrightarrow> \<exists>x. res = Inr (x, r)"
  by (cases res) (auto simp: wrap_def)

lemma wrap_Inl_D: "wrap f res = Inl e \<Longrightarrow> res = Inl e"
  by (cases res) (auto simp: wrap_def)

lemma parse_value_cases:
  assumes "skip_ws s = c # cs"
  shows "(\<exists>v ds. parse_value (Suc n) s = Inr (v, ds) \<and> length ds \<le> length cs) \<or>
         parse_value (Suc n) s = wrap JArray (parse_elements n cs) \<or>
         parse_value (Suc n) s = wrap JObject (parse_members n cs) \<or>
         parse_value (Suc n) s = wrap JString (string_body cs) \<or>
         parse_value (Suc n) s = wrap JNumber (parse_number (c # cs)) \<or>
         parse_value (Suc n) s = Inl SyntaxError"
proof (cases "c = CHR ''[''")
  case True
  show ?thesis
  proof (cases "skip_ws cs")
    case Nil
    with assms True show ?thesis by simp
  next
    case (Cons d ds)
    show ?thesis
    proof (cases "d = CHR '']''")
      case d: True
      from assms True Cons d have "parse_value (Suc n) s = Inr (JArray [], ds)" by simp
      moreover have "length ds \<le> length cs" using skip_ws_Cons [OF Cons] by simp
      ultimately show ?thesis by blast
    next
      case False
      with assms True Cons show ?thesis by simp
    qed
  qed
next
  case na: False
  show ?thesis
  proof (cases "c = CHR ''{''")
    case True
    show ?thesis
    proof (cases "skip_ws cs")
      case Nil
      with assms na True show ?thesis by simp
    next
      case (Cons d ds)
      show ?thesis
      proof (cases "d = CHR ''}''")
        case d: True
        from assms na True Cons d have "parse_value (Suc n) s = Inr (JObject [], ds)" by simp
        moreover have "length ds \<le> length cs" using skip_ws_Cons [OF Cons] by simp
        ultimately show ?thesis by blast
      next
        case False
        with assms na True Cons show ?thesis by simp
      qed
    qed
  next
    case no: False
    show ?thesis
    proof (cases "c = CHR 0x22")
      case True
      with assms na no show ?thesis by simp
    next
      case ns: False
      show ?thesis
      proof (cases "c = CHR ''-'' \<or> is_digit c")
        case True
        with assms na no ns show ?thesis by simp
      next
        case nn: False
        have l: "length (drop k (c # cs)) \<le> length cs" if "0 < k" for k
          using that by (cases k) simp_all
        show ?thesis
        proof (cases "take 4 (c # cs) = ''true''")
          case True
          with assms na no ns nn
          have "parse_value (Suc n) s = Inr (JBool True, drop 4 (c # cs))" by simp
          with l [of 4] show ?thesis by (simp del: parse_value.simps)
        next
          case nt: False
          show ?thesis
          proof (cases "take 5 (c # cs) = ''false''")
            case True
            with assms na no ns nn nt
            have "parse_value (Suc n) s = Inr (JBool False, drop 5 (c # cs))" by simp
            with l [of 5] show ?thesis by (simp del: parse_value.simps)
          next
            case nf: False
            show ?thesis
            proof (cases "take 4 (c # cs) = ''null''")
              case True
              with assms na no ns nn nt nf
              have "parse_value (Suc n) s = Inr (JNull, drop 4 (c # cs))" by simp
              with l [of 4] show ?thesis by (simp del: parse_value.simps)
            next
              case False
              with assms na no ns nn nt nf show ?thesis by simp
            qed
          qed
        qed
      qed
    qed
  qed
qed

lemma parse_elements_cases:
  "(\<exists>e. parse_value n s = Inl e \<and> parse_elements (Suc n) s = Inl e) \<or>
   (\<exists>v t. parse_value n s = Inr (v, t) \<and>
      (parse_elements (Suc n) s = Inl SyntaxError \<or>
       (\<exists>cs. length cs < length t \<and>
          (parse_elements (Suc n) s = prepend v (parse_elements n cs) \<or>
           parse_elements (Suc n) s = Inr ([v], cs)))))"
proof (cases "parse_value n s")
  case (Inl e)
  then show ?thesis by simp
next
  case (Inr p)
  obtain v t where p: "p = (v, t)" by (cases p)
  have "parse_elements (Suc n) s = Inl SyntaxError \<or>
       (\<exists>cs. length cs < length t \<and>
          (parse_elements (Suc n) s = prepend v (parse_elements n cs) \<or>
           parse_elements (Suc n) s = Inr ([v], cs)))"
  proof (cases "skip_ws t")
    case Nil
    with Inr p show ?thesis by simp
  next
    case (Cons c cs)
    note l = skip_ws_Cons [OF Cons]
    show ?thesis
    proof (cases "c = CHR '',''")
      case True
      with Inr p Cons have "parse_elements (Suc n) s = prepend v (parse_elements n cs)" by simp
      with l show ?thesis by blast
    next
      case nc: False
      show ?thesis
      proof (cases "c = CHR '']''")
        case True
        with Inr p Cons nc have "parse_elements (Suc n) s = Inr ([v], cs)" by simp
        with l show ?thesis by blast
      next
        case False
        with Inr p Cons nc show ?thesis by simp
      qed
    qed
  qed
  with Inr p show ?thesis by blast
qed

lemma parse_members_cases:
  "(\<exists>e. parse_members (Suc n) s = Inl e \<and> e \<noteq> OutOfFuel) \<or>
   (\<exists>s3. length s3 + 2 < length s \<and>
      ((\<exists>e. parse_value n s3 = Inl e \<and> parse_members (Suc n) s = Inl e) \<or>
       (\<exists>v s4 s5 k. parse_value n s3 = Inr (v, s4) \<and> length s5 < length s4 \<and>
          (parse_members (Suc n) s = prepend (k, v) (parse_members n s5) \<or>
           parse_members (Suc n) s = Inr ([(k, v)], s5)))))"
proof (cases "skip_ws s")
  case Nil
  then show ?thesis by simp
next
  case sk1: (Cons q s1)
  show ?thesis
  proof (cases "q = CHR 0x22")
    case False
    with sk1 show ?thesis by simp
  next
    case q: True
    show ?thesis
    proof (cases "string_body s1")
      case (Inl e)
      with sk1 q have "parse_members (Suc n) s = Inl e" by simp
      moreover from Inl have "e \<noteq> OutOfFuel" using string_body_fuel [of s1] by auto
      ultimately show ?thesis by blast
    next
      case (Inr p)
      obtain k s2 where p: "p = (k, s2)" by (cases p)
      from Inr p have l2: "length s2 < length s1" using string_body_consumes by blast
      show ?thesis
      proof (cases "skip_ws s2")
        case Nil
        with sk1 q Inr p show ?thesis by simp
      next
        case sk2: (Cons c s3)
        show ?thesis
        proof (cases "c = CHR '':''")
          case False
          with sk1 q Inr p sk2 show ?thesis by simp
        next
          case c: True
          from skip_ws_Cons [OF sk1] l2 skip_ws_Cons [OF sk2]
          have l3: "length s3 + 2 < length s" by simp
          show ?thesis
          proof (cases "parse_value n s3")
            case (Inl e)
            with sk1 q Inr p sk2 c have "parse_members (Suc n) s = Inl e" by simp
            with Inl l3 show ?thesis by blast
          next
            case v: (Inr pv)
            obtain x s4 where pv: "pv = (x, s4)" by (cases pv)
            show ?thesis
            proof (cases "skip_ws s4")
              case Nil
              with sk1 q Inr p sk2 c v pv show ?thesis by simp
            next
              case sk3: (Cons d s5)
              note l5 = skip_ws_Cons [OF sk3]
              show ?thesis
              proof (cases "d = CHR '',''")
                case True
                with sk1 q Inr p sk2 c v pv sk3
                have "parse_members (Suc n) s = prepend (k, x) (parse_members n s5)" by simp
                with v pv l3 l5 show ?thesis by blast
              next
                case nd: False
                show ?thesis
                proof (cases "d = CHR ''}''")
                  case True
                  with sk1 q Inr p sk2 c v pv sk3 nd
                  have "parse_members (Suc n) s = Inr ([(k, x)], s5)" by simp
                  with v pv l3 l5 show ?thesis by blast
                next
                  case False
                  with sk1 q Inr p sk2 c v pv sk3 nd show ?thesis by simp
                qed
              qed
            qed
          qed
        qed
      qed
    qed
  qed
qed

lemma prepend_Inr_D: "prepend x res = Inr (ys, r) \<Longrightarrow> \<exists>zs. res = Inr (zs, r)"
  by (rule prepend_Inr)

lemma parse_consumes:
  "(\<forall>s v r. parse_value n s = Inr (v, r) \<longrightarrow> length r < length s) \<and>
   (\<forall>s vs r. parse_elements n s = Inr (vs, r) \<longrightarrow> length r < length s) \<and>
   (\<forall>s ms r. parse_members n s = Inr (ms, r) \<longrightarrow> length r < length s)"
proof (induction n)
  case 0
  then show ?case by simp
next
  case (Suc n)
  then have ihv: "\<And>s v r. parse_value n s = Inr (v, r) \<Longrightarrow> length r < length s"
    and ihe: "\<And>s vs r. parse_elements n s = Inr (vs, r) \<Longrightarrow> length r < length s"
    and ihm: "\<And>s ms r. parse_members n s = Inr (ms, r) \<Longrightarrow> length r < length s"
    by blast+
  have v: "length r < length s" if a: "parse_value (Suc n) s = Inr (v, r)" for s v r
  proof (cases "skip_ws s")
    case Nil
    with a show ?thesis by simp
  next
    case (Cons c cs)
    note len = skip_ws_Cons [OF Cons]
    from parse_value_cases [OF Cons, of n] show ?thesis
    proof (elim disjE exE conjE)
      fix w ds assume "parse_value (Suc n) s = Inr (w, ds)" "length ds \<le> length cs"
      with a len show ?thesis by (simp del: parse_value.simps)
    next
      assume "parse_value (Suc n) s = wrap JArray (parse_elements n cs)"
      with a have "wrap JArray (parse_elements n cs) = Inr (v, r)" by (simp del: parse_value.simps)
      from wrap_Inr_D [OF this] obtain x where "parse_elements n cs = Inr (x, r)" ..
      from ihe [OF this] len show ?thesis by simp
    next
      assume "parse_value (Suc n) s = wrap JObject (parse_members n cs)"
      with a have "wrap JObject (parse_members n cs) = Inr (v, r)" by (simp del: parse_value.simps)
      from wrap_Inr_D [OF this] obtain x where "parse_members n cs = Inr (x, r)" ..
      from ihm [OF this] len show ?thesis by simp
    next
      assume "parse_value (Suc n) s = wrap JString (string_body cs)"
      with a have "wrap JString (string_body cs) = Inr (v, r)" by (simp del: parse_value.simps)
      from wrap_Inr_D [OF this] obtain x where "string_body cs = Inr (x, r)" ..
      from string_body_consumes [OF this] len show ?thesis by simp
    next
      assume "parse_value (Suc n) s = wrap JNumber (parse_number (c # cs))"
      with a have "wrap JNumber (parse_number (c # cs)) = Inr (v, r)" by (simp del: parse_value.simps)
      from wrap_Inr_D [OF this] obtain x where "parse_number (c # cs) = Inr (x, r)" ..
      from parse_number_consumes [OF this] len show ?thesis by simp
    next
      assume "parse_value (Suc n) s = Inl SyntaxError"
      with a show ?thesis by (simp del: parse_value.simps)
    qed
  qed
  have e: "length r < length s" if a: "parse_elements (Suc n) s = Inr (vs, r)" for s vs r
    using parse_elements_cases [of n s]
  proof (elim disjE exE conjE)
    fix err assume "parse_elements (Suc n) s = Inl err"
    with a show ?thesis by (simp del: parse_elements.simps)
  next
    fix w t assume "parse_elements (Suc n) s = Inl SyntaxError"
    with a show ?thesis by (simp del: parse_elements.simps)
  next
    fix w t cs assume w: "parse_value n s = Inr (w, t)" and l: "length cs < length t"
      and p: "parse_elements (Suc n) s = prepend w (parse_elements n cs)"
    from a p have "prepend w (parse_elements n cs) = Inr (vs, r)" by (simp del: parse_elements.simps)
    from prepend_Inr_D [OF this] obtain zs where "parse_elements n cs = Inr (zs, r)" ..
    from ihe [OF this] ihv [OF w] l show ?thesis by simp
  next
    fix w t cs assume w: "parse_value n s = Inr (w, t)" and l: "length cs < length t"
      and p: "parse_elements (Suc n) s = Inr ([w], cs)"
    from a p have "r = cs" by (simp del: parse_elements.simps)
    with ihv [OF w] l show ?thesis by simp
  qed
  have m: "length r < length s" if a: "parse_members (Suc n) s = Inr (ms, r)" for s ms r
    using parse_members_cases [of n s]
  proof (elim disjE exE conjE)
    fix err assume "parse_members (Suc n) s = Inl err"
    with a show ?thesis by (simp del: parse_members.simps)
  next
    fix s3 err assume "parse_members (Suc n) s = Inl err"
    with a show ?thesis by (simp del: parse_members.simps)
  next
    fix s3 w s4 s5 k assume l3: "length s3 + 2 < length s" and w: "parse_value n s3 = Inr (w, s4)"
      and l5: "length s5 < length s4"
      and p: "parse_members (Suc n) s = prepend (k, w) (parse_members n s5)"
    from a p have "prepend (k, w) (parse_members n s5) = Inr (ms, r)" by (simp del: parse_members.simps)
    from prepend_Inr_D [OF this] obtain zs where "parse_members n s5 = Inr (zs, r)" ..
    from ihm [OF this] ihv [OF w] l3 l5 show ?thesis by simp
  next
    fix s3 w s4 s5 k assume l3: "length s3 + 2 < length s" and w: "parse_value n s3 = Inr (w, s4)"
      and l5: "length s5 < length s4"
      and p: "parse_members (Suc n) s = Inr ([(k, w)], s5)"
    from a p have "r = s5" by (simp del: parse_members.simps)
    with ihv [OF w] l3 l5 show ?thesis by simp
  qed
  from v e m show ?case by blast
qed

lemma parse_value_consumes: "parse_value n s = Inr (v, r) \<Longrightarrow> length r < length s"
  using parse_consumes [of n] by blast

lemma parse_fuel:
  "(\<forall>s. 2 * length s < n \<longrightarrow> parse_value n s \<noteq> Inl OutOfFuel) \<and>
   (\<forall>s. 2 * length s + 1 < n \<longrightarrow> parse_elements n s \<noteq> Inl OutOfFuel) \<and>
   (\<forall>s. 2 * length s < n \<longrightarrow> parse_members n s \<noteq> Inl OutOfFuel)"
proof (induction n)
  case 0
  then show ?case by simp
next
  case (Suc n)
  then have ihv: "\<And>s. 2 * length s < n \<Longrightarrow> parse_value n s \<noteq> Inl OutOfFuel"
    and ihe: "\<And>s. 2 * length s + 1 < n \<Longrightarrow> parse_elements n s \<noteq> Inl OutOfFuel"
    and ihm: "\<And>s. 2 * length s < n \<Longrightarrow> parse_members n s \<noteq> Inl OutOfFuel"
    by blast+
  have v: "parse_value (Suc n) s \<noteq> Inl OutOfFuel" if a: "2 * length s < Suc n" for s
  proof (cases "skip_ws s")
    case Nil
    then show ?thesis by simp
  next
    case (Cons c cs)
    from skip_ws_Cons [OF Cons] a have l: "2 * length cs + 1 < n" by simp
    from parse_value_cases [OF Cons, of n] show ?thesis
    proof (elim disjE exE conjE)
      fix w ds assume "parse_value (Suc n) s = Inr (w, ds)"
      then show ?thesis by (simp del: parse_value.simps)
    next
      assume p: "parse_value (Suc n) s = wrap JArray (parse_elements n cs)"
      show ?thesis
      proof
        assume "parse_value (Suc n) s = Inl OutOfFuel"
        with p have "wrap JArray (parse_elements n cs) = Inl OutOfFuel" by (simp del: parse_value.simps)
        from wrap_Inl_D [OF this] ihe [OF l] show False by contradiction
      qed
    next
      assume p: "parse_value (Suc n) s = wrap JObject (parse_members n cs)"
      from l have l': "2 * length cs < n" by simp
      show ?thesis
      proof
        assume "parse_value (Suc n) s = Inl OutOfFuel"
        with p have "wrap JObject (parse_members n cs) = Inl OutOfFuel" by (simp del: parse_value.simps)
        from wrap_Inl_D [OF this] ihm [OF l'] show False by contradiction
      qed
    next
      assume p: "parse_value (Suc n) s = wrap JString (string_body cs)"
      show ?thesis
      proof
        assume "parse_value (Suc n) s = Inl OutOfFuel"
        with p have "wrap JString (string_body cs) = Inl OutOfFuel" by (simp del: parse_value.simps)
        from wrap_Inl_D [OF this] string_body_fuel [of cs] show False by contradiction
      qed
    next
      assume p: "parse_value (Suc n) s = wrap JNumber (parse_number (c # cs))"
      show ?thesis
      proof
        assume "parse_value (Suc n) s = Inl OutOfFuel"
        with p have "wrap JNumber (parse_number (c # cs)) = Inl OutOfFuel" by (simp del: parse_value.simps)
        from wrap_Inl_D [OF this] parse_number_fuel [of "c # cs"] show False by contradiction
      qed
    next
      assume "parse_value (Suc n) s = Inl SyntaxError"
      then show ?thesis by (simp del: parse_value.simps)
    qed
  qed
  have e: "parse_elements (Suc n) s \<noteq> Inl OutOfFuel" if a: "2 * length s + 1 < Suc n" for s
    using parse_elements_cases [of n s]
  proof (elim disjE exE conjE)
    fix err assume "parse_value n s = Inl err" and p: "parse_elements (Suc n) s = Inl err"
    moreover from a have "2 * length s < n" by simp
    ultimately have "err \<noteq> OutOfFuel" using ihv [of s] by auto
    with p show ?thesis by (simp del: parse_elements.simps)
  next
    fix w t assume "parse_elements (Suc n) s = Inl SyntaxError"
    then show ?thesis by (simp del: parse_elements.simps)
  next
    fix w t cs assume w: "parse_value n s = Inr (w, t)" and l: "length cs < length t"
      and p: "parse_elements (Suc n) s = prepend w (parse_elements n cs)"
    from parse_value_consumes [OF w] l a have "2 * length cs + 1 < n" by simp
    from ihe [OF this] have nf: "parse_elements n cs \<noteq> Inl OutOfFuel" .
    show ?thesis
    proof
      assume "parse_elements (Suc n) s = Inl OutOfFuel"
      with p have "prepend w (parse_elements n cs) = Inl OutOfFuel" by (simp del: parse_elements.simps)
      from prepend_Inl [OF this] nf show False by contradiction
    qed
  next
    fix w t cs assume "parse_elements (Suc n) s = Inr ([w], cs)"
    then show ?thesis by (simp del: parse_elements.simps)
  qed
  have m: "parse_members (Suc n) s \<noteq> Inl OutOfFuel" if a: "2 * length s < Suc n" for s
    using parse_members_cases [of n s]
  proof (elim disjE exE conjE)
    fix err assume "parse_members (Suc n) s = Inl err" "err \<noteq> OutOfFuel"
    then show ?thesis by (simp del: parse_members.simps)
  next
    fix s3 err assume l3: "length s3 + 2 < length s" and "parse_value n s3 = Inl err"
      and p: "parse_members (Suc n) s = Inl err"
    moreover from l3 a have "2 * length s3 < n" by simp
    ultimately have "err \<noteq> OutOfFuel" using ihv [of s3] by auto
    with p show ?thesis by (simp del: parse_members.simps)
  next
    fix s3 w s4 s5 k assume l3: "length s3 + 2 < length s" and w: "parse_value n s3 = Inr (w, s4)"
      and l5: "length s5 < length s4"
      and p: "parse_members (Suc n) s = prepend (k, w) (parse_members n s5)"
    from parse_value_consumes [OF w] l3 l5 a have "2 * length s5 < n" by simp
    from ihm [OF this] have nf: "parse_members n s5 \<noteq> Inl OutOfFuel" .
    show ?thesis
    proof
      assume "parse_members (Suc n) s = Inl OutOfFuel"
      with p have "prepend (k, w) (parse_members n s5) = Inl OutOfFuel" by (simp del: parse_members.simps)
      from prepend_Inl [OF this] nf show False by contradiction
    qed
  next
    fix s3 w s4 s5 k assume "parse_members (Suc n) s = Inr ([(k, w)], s5)"
    then show ?thesis by (simp del: parse_members.simps)
  qed
  from v e m show ?case by blast
qed

theorem JSON_parse_fuel: "JSON_parse s \<noteq> Inl OutOfFuel"
proof -
  have nf: "parse_value (Suc (2 * length s)) s \<noteq> Inl OutOfFuel"
    using parse_fuel [of "Suc (2 * length s)"] by simp
  show ?thesis
  proof (cases "parse_value (Suc (2 * length s)) s")
    case (Inl e)
    with nf show ?thesis by (simp add: JSON_parse_def del: parse_value.simps)
  next
    case (Inr p)
    then show ?thesis by (cases p) (simp add: JSON_parse_def del: parse_value.simps)
  qed
qed

section \<open>Reloading what was persisted\<close>

lemma as_task_task_json: "as_task (task_json t) = Some t"
  by (cases "t_description t") (simp_all add: as_task_def task_json_def property_def)

lemma as_todo_todo_json: "as_todo (todo_json q) = Some q"
  by (simp add: as_todo_def todo_json_def property_def)

lemma those_map_Some: "(\<And>x. f x = Some (g x)) \<Longrightarrow> those (map f xs) = Some (map g xs)"
  by (induction xs) simp_all

lemma as_tasks_tasks_json: "as_tasks (JArray (map task_json ts)) = Some ts"
  using those_map_Some [of "as_task \<circ> task_json" id ts]
  by (simp add: as_tasks_def as_task_task_json)

lemma as_todos_todos_json: "as_todos (JArray (map todo_json qs)) = Some qs"
  using those_map_Some [of "as_todo \<circ> todo_json" id qs]
  by (simp add: as_todos_def as_todo_todo_json)

lemma init_collection_stringify: "init_collection (Some (JSON_stringify v)) = Inr v"
  using JSON_stringify_nonempty [of v] by (simp add: init_collection_def JSON_parse_stringify)

lemma init_notes_Some: "init_notes (Some s) = s"
  by (simp add: init_notes_def)

text \<open>
  C7. After the effects have run, parsing the text stored under \<^verbatim>\<open>vibe-tasks\<close>
  gives the tasks in memory, parsing the text stored under \<^verbatim>\<open>vibe-todos\<close> gives the
  quick todos in memory, and the string stored under \<^verbatim>\<open>vibe-notes\<close> is the note in
  memory; initialising the component from that storage succeeds and gives the state with
  the same tasks, quick todos and note (and the form and the drag overlay reset). This
  holds for every state, whether reached or not.
\<close>

theorem persisted_state_round_trips:
  "map_option JSON_parse (persist st sto ''vibe-tasks'')
     = Some (Inr (JArray (map task_json (tasks st)))) \<and>
   as_tasks (JArray (map task_json (tasks st))) = Some (tasks st) \<and>
   map_option JSON_parse (persist st sto ''vibe-todos'')
     = Some (Inr (JArray (map todo_json (todos st)))) \<and>
   as_todos (JArray (map todo_json (todos st))) = Some (todos st) \<and>
   persist st sto ''vibe-notes'' = Some (notes_text st) \<and>
   map_sum id typed (App_init (persist st sto))
     = Inr (Some (initial (tasks st) (todos st) (notes_text st)))"
proof (intro conjI)
  show "map_option JSON_parse (persist st sto ''vibe-tasks'')
     = Some (Inr (JArray (map task_json (tasks st))))"
    by (simp add: persist_def JSON_parse_stringify del: JSON_stringify.simps)
  show "map_option JSON_parse (persist st sto ''vibe-todos'')
     = Some (Inr (JArray (map todo_json (todos st))))"
    by (simp add: persist_def JSON_parse_stringify del: JSON_stringify.simps)
  show "as_tasks (JArray (map task_json (tasks st))) = Some (tasks st)"
    by (rule as_tasks_tasks_json)
  show "as_todos (JArray (map todo_json (todos st))) = Some (todos st)"
    by (rule as_todos_todos_json)
  show "persist st sto ''vibe-notes'' = Some (notes_text st)"
    by (simp add: persist_def)
  have "App_init (persist st sto)
      = Inr \<lparr>loaded_tasks = JArray (map task_json (tasks st)),
             loaded_todos = JArray (map todo_json (todos st)),
             loaded_notes = notes_text st\<rparr>"
    by (simp add: App_init_def persist_def init_collection_stringify init_notes_Some
        del: JSON_stringify.simps)
  then show "map_sum id typed (App_init (persist st sto))
     = Inr (Some (initial (tasks st) (todos st) (notes_text st)))"
    by (simp add: typed_def as_tasks_tasks_json as_todos_todos_json)
qed

theorem persisted_state_round_trips_witness:
  "map_sum id typed (App_init (persist board Map.empty)) = Inr (Some board) \<and>
   persist board Map.empty ''vibe-notes'' = Some ''call back''"
proof -
  have b: "initial (tasks board) (todos board) (notes_text board) = board"
    "notes_text board = ''call back''"
    by (simp_all add: board_def initial_def)
  from persisted_state_round_trips [of board Map.empty]
  have "map_sum id typed (App_init (persist board Map.empty))
      = Inr (Some (initial (tasks board) (todos board) (notes_text board)))"
    and "persist board Map.empty ''vibe-notes'' = Some (notes_text board)"
    by blast+
  then have "map_sum id typed (App_init (persist board Map.empty)) = Inr (Some board)"
    and "persist board Map.empty ''vibe-notes'' = Some ''call back''"
    unfolding b(1) by (simp_all only: b(2))
  then show ?thesis by (rule conjI)
qed

section \<open>Malformed stored data\<close>

lemma JSON_parse_empty: "JSON_parse '''' = Inl SyntaxError"
  by (simp add: JSON_parse_def skip_ws_def)

text \<open>
  C8, as stated, fails for the empty string: it is not valid JSON and it is not null,
  but \<^verbatim>\<open>saved ? JSON.parse(saved) : []\<close> takes it for false and falls back to the
  empty collection.
\<close>

theorem empty_string_fallback_counterexample:
  "JSON_parse '''' = Inl SyntaxError \<and>
   init_collection (Some '''') = Inr (JArray []) \<and>
   App_init [''vibe-tasks'' \<mapsto> '''', ''vibe-todos'' \<mapsto> '''']
     = Inr \<lparr>loaded_tasks = JArray [], loaded_todos = JArray [], loaded_notes = ''''\<rparr>"
  by (simp add: JSON_parse_empty init_collection_def App_init_def init_notes_def)

text \<open>
  C8, amended. When the string stored under \<^verbatim>\<open>vibe-tasks\<close> is not empty and
  \<^verbatim>\<open>JSON.parse\<close> rejects it, the initialisation fails with that error; when the
  tasks initialise and the string stored under \<^verbatim>\<open>vibe-todos\<close> is not empty and is
  rejected, the initialisation fails with that error. No other value is produced.
\<close>

theorem malformed_storage_fails:
  "(sto ''vibe-tasks'' = Some saved \<and> saved \<noteq> '''' \<and> JSON_parse saved = Inl e \<longrightarrow>
      App_init sto = Inl e) \<and>
   (init_collection (sto ''vibe-tasks'') = Inr ts \<and>
    sto ''vibe-todos'' = Some saved' \<and> saved' \<noteq> '''' \<and> JSON_parse saved' = Inl e' \<longrightarrow>
      App_init sto = Inl e')"
  by (simp add: App_init_def init_collection_def)

lemma JSON_parse_open_bracket: "JSON_parse ''[{'' = Inl SyntaxError"
  by code_simp

lemma JSON_parse_empty_array: "JSON_parse ''[]'' = Inr (JArray [])"
  by code_simp

theorem malformed_storage_fails_witness:
  "App_init [''vibe-tasks'' \<mapsto> ''[{''] = Inl SyntaxError \<and>
   App_init [''vibe-tasks'' \<mapsto> ''[]'', ''vibe-todos'' \<mapsto> ''[{''] = Inl SyntaxError"
proof -
  have 1: "App_init [''vibe-tasks'' \<mapsto> ''[{''] = Inl SyntaxError"
    using malformed_storage_fails [of "[''vibe-tasks'' \<mapsto> ''[{'']" "''[{''" SyntaxError]
      JSON_parse_open_bracket
    by simp
  have "init_collection ([''vibe-tasks'' \<mapsto> ''[]'', ''vibe-todos'' \<mapsto> ''[{''] ''vibe-tasks'')
      = Inr (JArray [])"
    by (simp add: init_collection_def JSON_parse_empty_array)
  then have 2: "App_init [''vibe-tasks'' \<mapsto> ''[]'', ''vibe-todos'' \<mapsto> ''[{''] = Inl SyntaxError"
    using malformed_storage_fails [of "[''vibe-tasks'' \<mapsto> ''[]'', ''vibe-todos'' \<mapsto> ''[{'']"
        _ _ "JArray []" "''[{''" SyntaxError]
      JSON_parse_open_bracket
    by simp
  from 1 2 show ?thesis by simp
qed

end
